theory Spec2Isabelle
  imports Complex_Main
begin

section \<open>Module constants\<close>

definition SCREEN_WIDTH :: int where "SCREEN_WIDTH = 800"
definition SCREEN_HEIGHT :: int where "SCREEN_HEIGHT = 600"
definition CELL_SIZE :: int where "CELL_SIZE = 40"
definition ROWS :: int where "ROWS = SCREEN_HEIGHT div CELL_SIZE"
definition COLS :: int where "COLS = SCREEN_WIDTH div CELL_SIZE"

definition EMPTY :: int where "EMPTY = 0"
definition DESTRUCTIBLE :: int where "DESTRUCTIBLE = 1"
definition INDESTRUCTIBLE :: int where "INDESTRUCTIBLE = 2"

definition ACTIONS :: "string list" where
  "ACTIONS = [''UP'', ''DOWN'', ''LEFT'', ''RIGHT'', ''PLACE_BOMB'']"

section \<open>Python sequences and exceptions\<close>

text \<open>
  An exception raised by the program is the left summand of the result. Subscripting a
  Python list (and a numpy axis) with \<open>i\<close> accepts \<open>- len \<le> i < len\<close>, a negative
  subscript counting from the end, and raises IndexError otherwise.
\<close>

datatype py_error = IndexError | ValueError | FileNotFoundError

definition py_bind :: "py_error + 'a \<Rightarrow> ('a \<Rightarrow> py_error + 'b) \<Rightarrow> py_error + 'b" where
  "py_bind m f = (case m of Inl e \<Rightarrow> Inl e | Inr x \<Rightarrow> f x)"

definition subscript :: "nat \<Rightarrow> int \<Rightarrow> nat option" where
  "subscript len i =
     (if 0 \<le> i \<and> i < int len then Some (nat i)
      else if i < 0 \<and> - int len \<le> i then Some (nat (int len + i))
      else None)"

definition py_index :: "'a list \<Rightarrow> int \<Rightarrow> py_error + 'a" where
  "py_index xs i = (case subscript (length xs) i of None \<Rightarrow> Inl IndexError | Some k \<Rightarrow> Inr (xs ! k))"

definition py_store :: "'a list \<Rightarrow> int \<Rightarrow> 'a \<Rightarrow> py_error + 'a list" where
  "py_store xs i v =
     (case subscript (length xs) i of None \<Rightarrow> Inl IndexError | Some k \<Rightarrow> Inr (xs[k := v]))"

section \<open>The learning agent\<close>

text \<open>
  The entries of the table and the learning parameters are numpy float64 values in the
  program; the model computes with them as real numbers, so rounding is not represented.
\<close>

record QLearningAgent =
  state_size :: int
  action_size :: int
  q_table :: "real list list"
  alpha :: real
  gamma :: real
  epsilon :: real
  agent_id :: int

section \<open>The game state\<close>

record bomb =
  bomb_row :: int
  bomb_col :: int
  bomb_timer :: real
  bomb_owner :: int

record game =
  num_agents :: int
  grid :: "int list list"
  agent_positions :: "(int \<times> int) list"
  bombs :: "bomb list"
  scores :: "int list"
  lives :: "int list"
  game_over :: "bool list"
  current_episode :: int
  max_episodes :: int
  time_accumulator :: real
  update_interval :: real
  agents :: "QLearningAgent list"

text \<open>\<open>self.grid[r][c]\<close>: two list subscripts, each of which may raise.\<close>

definition grid_get :: "int list list \<Rightarrow> int \<Rightarrow> int \<Rightarrow> py_error + int" where
  "grid_get cells r c = py_bind (py_index cells r) (\<lambda>line. py_index line c)"

text \<open>\<open>self.grid[r][c] = v\<close>: the row object is fetched and updated in place.\<close>

definition grid_set :: "int list list \<Rightarrow> int \<Rightarrow> int \<Rightarrow> int \<Rightarrow> py_error + int list list" where
  "grid_set cells r c v =
     py_bind (py_index cells r) (\<lambda>line.
     py_bind (py_store line c v) (\<lambda>line'.
     py_store cells r line'))"

definition get_state :: "game \<Rightarrow> int \<Rightarrow> py_error + int" where
  "get_state g agent_index =
     py_bind (py_index (agent_positions g) agent_index) (\<lambda>(row, col). Inr (row * COLS + col))"

subsection \<open>perform\_action\<close>

text \<open>
  One guard of the \<open>if\<close>/\<open>elif\<close> chain: \<open>action == k and <bound> and self.grid[r][c] == EMPTY\<close>.
  The conjunction is evaluated left to right, and the grid is read only when the first two
  conjuncts hold.
\<close>

definition move_guard :: "game \<Rightarrow> bool \<Rightarrow> int \<Rightarrow> int \<Rightarrow> py_error + bool" where
  "move_guard g enabled r c =
     (if enabled then py_bind (grid_get (grid g) r c) (\<lambda>v. Inr (v = EMPTY)) else Inr False)"

definition move_to :: "game \<Rightarrow> int \<Rightarrow> int \<times> int \<Rightarrow> py_error + (int \<times> game)" where
  "move_to g agent_index p =
     py_bind (py_store (agent_positions g) agent_index p) (\<lambda>ps.
       Inr (5, g\<lparr>agent_positions := ps\<rparr>))"

definition perform_action :: "game \<Rightarrow> int \<Rightarrow> int \<Rightarrow> py_error + (int \<times> game)" where
  "perform_action g agent_index action =
     py_bind (py_index (game_over g) agent_index) (\<lambda>dead.
     if dead then Inr (- 100, g)
     else
     py_bind (py_index (agent_positions g) agent_index) (\<lambda>(row, col).
     py_bind (move_guard g (action = 0 \<and> row > 0) (row - 1) col) (\<lambda>up.
     if up then move_to g agent_index (row - 1, col)
     else
     py_bind (move_guard g (action = 1 \<and> row < ROWS - 1) (row + 1) col) (\<lambda>down.
     if down then move_to g agent_index (row + 1, col)
     else
     py_bind (move_guard g (action = 2 \<and> col > 0) row (col - 1)) (\<lambda>left.
     if left then move_to g agent_index (row, col - 1)
     else
     py_bind (move_guard g (action = 3 \<and> col < COLS - 1) row (col + 1)) (\<lambda>right.
     if right then move_to g agent_index (row, col + 1)
     else if action = 4 then
       Inr (0, g\<lparr>bombs := bombs g @
                   [\<lparr>bomb_row = row, bomb_col = col, bomb_timer = 3, bomb_owner = agent_index\<rparr>]\<rparr>)
     else Inr (- 1, g)))))))"

subsection \<open>explode\_bomb\<close>

text \<open>
  The inner loop \<open>for i in range(1, 3)\<close> of one direction \<open>d = (dr, dc)\<close>, on the pair of
  the grid and the list \<open>affected_positions\<close>. A \<open>break\<close> returns the pair; a cell outside
  the board is skipped and the loop goes on.
\<close>

fun scan :: "int \<Rightarrow> int \<Rightarrow> int \<times> int \<Rightarrow> int list \<Rightarrow> int list list \<times> (int \<times> int) list \<Rightarrow>
    py_error + (int list list \<times> (int \<times> int) list)" where
  "scan row col d [] st = Inr st"
| "scan row col d (i # rest) st =
     (let r = row + fst d * i; c = col + snd d * i in
      if 0 \<le> r \<and> r < ROWS \<and> 0 \<le> c \<and> c < COLS then
        py_bind (grid_get (fst st) r c) (\<lambda>v.
        if v = INDESTRUCTIBLE then Inr st
        else
          py_bind (grid_get (fst st) r c) (\<lambda>w.
          if w = DESTRUCTIBLE then
            py_bind (grid_set (fst st) r c EMPTY) (\<lambda>cells. Inr (cells, snd st @ [(r, c)]))
          else scan row col d rest (fst st, snd st @ [(r, c)])))
      else scan row col d rest st)"

text \<open>The outer loop over the four directions.\<close>

fun sweep :: "int \<Rightarrow> int \<Rightarrow> (int \<times> int) list \<Rightarrow> int list list \<times> (int \<times> int) list \<Rightarrow>
    py_error + (int list list \<times> (int \<times> int) list)" where
  "sweep row col [] st = Inr st"
| "sweep row col (d # ds) st = py_bind (scan row col d [1, 2] st) (sweep row col ds)"

definition blast :: "int list list \<Rightarrow> int \<Rightarrow> int \<Rightarrow> py_error + (int list list \<times> (int \<times> int) list)" where
  "blast cells row col = sweep row col [(0, 1), (0, - 1), (1, 0), (- 1, 0)] (cells, [(row, col)])"

definition enumerate_py :: "'a list \<Rightarrow> (int \<times> 'a) list" where
  "enumerate_py xs = zip (map int [0 ..< length xs]) xs"

text \<open>
  The loop \<open>for i, (arow, acol) in enumerate(self.agent_positions)\<close>; \<open>game_over[i]\<close> is
  read only for a position in the list, by the order of the conjunction.
\<close>

fun damage :: "(int \<times> int) list \<Rightarrow> (int \<times> (int \<times> int)) list \<Rightarrow> game \<Rightarrow> py_error + game" where
  "damage affected_positions [] g = Inr g"
| "damage affected_positions ((i, p) # rest) g =
     (if p \<in> set affected_positions then
        py_bind (py_index (game_over g) i) (\<lambda>dead.
        if \<not> dead then
          py_bind (py_index (lives g) i) (\<lambda>n.
          py_bind (py_store (lives g) i (n - 1)) (\<lambda>ls.
          py_bind (py_index ls i) (\<lambda>m.
          if m \<le> 0 then
            py_bind (py_store (game_over g) i True) (\<lambda>flags.
              damage affected_positions rest (g\<lparr>lives := ls, game_over := flags\<rparr>))
          else damage affected_positions rest (g\<lparr>lives := ls\<rparr>))))
        else damage affected_positions rest g)
      else damage affected_positions rest g)"

definition explode_bomb :: "game \<Rightarrow> bomb \<Rightarrow> py_error + game" where
  "explode_bomb g b =
     py_bind (blast (grid g) (bomb_row b) (bomb_col b)) (\<lambda>(cells, affected_positions).
       damage affected_positions (enumerate_py (agent_positions g)) (g\<lparr>grid := cells\<rparr>))"

section \<open>The environment: random generators and files\<close>

text \<open>
  The two global generators (Python's \<open>random\<close> and numpy's) are sequences of draws with a
  count of the draws used so far. \<open>randint(n)\<close> reduces a raw integer draw to \<open>[0, n)\<close>.
  The file system is the list of the writes made, the newest last; a file holds a
  two-dimensional array or bytes that \<open>np.load\<close> cannot read.
\<close>

datatype npy_file = Array "real list list" | Unreadable

record environment =
  random_draws :: "nat \<Rightarrow> real"
  random_used :: nat
  np_uniform :: "nat \<Rightarrow> real"
  np_integer :: "nat \<Rightarrow> int"
  np_used :: nat
  files :: "(string \<times> npy_file) list"

definition random_random :: "environment \<Rightarrow> real \<times> environment" where
  "random_random env = (random_draws env (random_used env), env\<lparr>random_used := Suc (random_used env)\<rparr>)"

definition np_random_random :: "environment \<Rightarrow> real \<times> environment" where
  "np_random_random env = (np_uniform env (np_used env), env\<lparr>np_used := Suc (np_used env)\<rparr>)"

definition np_random_randint :: "int \<Rightarrow> environment \<Rightarrow> py_error + (int \<times> environment)" where
  "np_random_randint n env =
     (if n \<le> 0 then Inl ValueError
      else Inr (np_integer env (np_used env) mod n, env\<lparr>np_used := Suc (np_used env)\<rparr>))"

definition np_save :: "string \<Rightarrow> real list list \<Rightarrow> environment \<Rightarrow> environment" where
  "np_save filename t env = env\<lparr>files := files env @ [(filename, Array t)]\<rparr>"

definition file_content :: "environment \<Rightarrow> string \<Rightarrow> npy_file option" where
  "file_content env filename = map_of (rev (files env)) filename"

definition np_load :: "string \<Rightarrow> environment \<Rightarrow> py_error + real list list" where
  "np_load filename env =
     (case file_content env filename of
        None \<Rightarrow> Inl FileNotFoundError
      | Some Unreadable \<Rightarrow> Inl ValueError
      | Some (Array t) \<Rightarrow> Inr t)"

section \<open>QLearningAgent\<close>

definition np_zeros :: "int \<Rightarrow> int \<Rightarrow> py_error + real list list" where
  "np_zeros m n =
     (if m < 0 \<or> n < 0 then Inl ValueError else Inr (replicate (nat m) (replicate (nat n) 0)))"

fun np_max :: "real list \<Rightarrow> py_error + real" where
  "np_max [] = Inl ValueError"
| "np_max (x # xs) = Inr (fold max xs x)"

fun first_index :: "'a \<Rightarrow> 'a list \<Rightarrow> nat" where
  "first_index v [] = 0"
| "first_index v (x # xs) = (if x = v then 0 else Suc (first_index v xs))"

definition np_argmax :: "real list \<Rightarrow> py_error + int" where
  "np_argmax xs = py_bind (np_max xs) (\<lambda>m. Inr (int (first_index m xs)))"

definition QLearningAgent_init ::
    "int \<Rightarrow> int \<Rightarrow> real \<Rightarrow> real \<Rightarrow> real \<Rightarrow> int \<Rightarrow> py_error + QLearningAgent" where
  "QLearningAgent_init ssize asize a g e ident =
     py_bind (np_zeros ssize asize) (\<lambda>t.
       Inr \<lparr>state_size = ssize, action_size = asize, q_table = t,
            alpha = a, gamma = g, epsilon = e, agent_id = ident\<rparr>)"

definition choose_action :: "QLearningAgent \<Rightarrow> int \<Rightarrow> environment \<Rightarrow> py_error + (int \<times> environment)" where
  "choose_action ag state env =
     (let (u, env1) = np_random_random env in
      if u < epsilon ag then np_random_randint (action_size ag) env1
      else py_bind (py_index (q_table ag) state) (\<lambda>line.
           py_bind (np_argmax line) (\<lambda>best. Inr (best, env1))))"

definition update :: "QLearningAgent \<Rightarrow> int \<Rightarrow> int \<Rightarrow> int \<Rightarrow> int \<Rightarrow> py_error + QLearningAgent" where
  "update ag state action reward next_state =
     py_bind (py_index (q_table ag) next_state) (\<lambda>next_line.
     py_bind (np_max next_line) (\<lambda>best_next_action.
     py_bind (py_index (q_table ag) state) (\<lambda>line.
     py_bind (py_index line action) (\<lambda>q.
     py_bind (py_index line action) (\<lambda>q0.
     py_bind (py_store line action
                (q0 + alpha ag * (real_of_int reward + gamma ag * best_next_action - q))) (\<lambda>line'.
     py_bind (py_store (q_table ag) state line') (\<lambda>t.
       Inr (ag\<lparr>q_table := t\<rparr>))))))))"

definition save_q_table :: "QLearningAgent \<Rightarrow> string \<Rightarrow> environment \<Rightarrow> environment" where
  "save_q_table ag filename env = np_save filename (q_table ag) env"

text \<open>Only FileNotFoundError is caught; any other exception of \<open>np.load\<close> goes to the caller.\<close>

definition load_q_table :: "QLearningAgent \<Rightarrow> string \<Rightarrow> environment \<Rightarrow> py_error + QLearningAgent" where
  "load_q_table ag filename env =
     (case np_load filename env of
        Inr t \<Rightarrow> Inr (ag\<lparr>q_table := t\<rparr>)
      | Inl e \<Rightarrow> if e = FileNotFoundError then Inr ag else Inl e)"

section \<open>BombermanGame: construction, setup and the tick\<close>

text \<open>\<open>str\<close> of an integer, for the file name \<open>f"agent_{i+1}_qtable.npy"\<close>.\<close>

fun str_nat :: "nat \<Rightarrow> string" where
  "str_nat n = (if n < 10 then [''0123456789'' ! n] else str_nat (n div 10) @ [''0123456789'' ! (n mod 10)])"

declare str_nat.simps [simp del]

definition str :: "int \<Rightarrow> string" where
  "str i = (if i < 0 then CHR ''-'' # str_nat (nat (- i)) else str_nat (nat i))"

definition qtable_filename :: "int \<Rightarrow> string" where
  "qtable_filename i = ''agent_'' @ str (i + 1) @ ''_qtable.npy''"

definition range_py :: "int \<Rightarrow> int list" where
  "range_py n = [0 .. n - 1]"

fun new_agents :: "int list \<Rightarrow> py_error + QLearningAgent list" where
  "new_agents [] = Inr []"
| "new_agents (i # rest) =
     py_bind (QLearningAgent_init (ROWS * COLS) (int (length ACTIONS)) 0.1 0.9 0.1 i) (\<lambda>ag.
     py_bind (new_agents rest) (\<lambda>ags. Inr (ag # ags)))"

fun load_all :: "(int \<times> QLearningAgent) list \<Rightarrow> environment \<Rightarrow> py_error + QLearningAgent list" where
  "load_all [] env = Inr []"
| "load_all ((i, ag) # rest) env =
     py_bind (load_q_table ag (qtable_filename i) env) (\<lambda>ag'.
     py_bind (load_all rest env) (\<lambda>ags. Inr (ag' # ags)))"

definition BombermanGame_init :: "int \<Rightarrow> int \<Rightarrow> environment \<Rightarrow> py_error + game" where
  "BombermanGame_init n episodes env =
     py_bind (new_agents (range_py n)) (\<lambda>ags.
     py_bind (load_all (enumerate_py ags) env) (\<lambda>loaded.
       Inr \<lparr>num_agents = n, grid = [], agent_positions = [], bombs = [],
            scores = replicate (nat n) 0, lives = replicate (nat n) 3,
            game_over = replicate (nat n) False, current_episode = 0,
            max_episodes = episodes, time_accumulator = 0, update_interval = 0.5,
            agents = loaded\<rparr>))"

text \<open>The two nested loops of \<open>setup\<close> that draw the grid, a row at a time.\<close>

fun make_row :: "nat \<Rightarrow> environment \<Rightarrow> int list \<times> environment" where
  "make_row 0 env = ([], env)"
| "make_row (Suc n) env =
     (let (u, env1) = random_random env in
      if u < 0.2 then
        (let (v, env2) = random_random env1;
             (rest, env3) = make_row n env2
         in ((if v < 0.7 then DESTRUCTIBLE else INDESTRUCTIBLE) # rest, env3))
      else
        (let (rest, env3) = make_row n env1 in (EMPTY # rest, env3)))"

fun make_grid :: "nat \<Rightarrow> environment \<Rightarrow> int list list \<times> environment" where
  "make_grid 0 env = ([], env)"
| "make_grid (Suc n) env =
     (let (row_data, env1) = make_row (nat COLS) env;
          (rest, env2) = make_grid n env1
      in (row_data # rest, env2))"

definition setup_game :: "game \<Rightarrow> environment \<Rightarrow> game \<times> environment" where
  "setup_game g env =
     (let (cells, env') = make_grid (nat ROWS) env in
      (g\<lparr>grid := cells,
         agent_positions := map (\<lambda>i. (1, 1 + i * 3)) (range_py (num_agents g)),
         scores := replicate (nat (num_agents g)) 0,
         lives := replicate (nat (num_agents g)) 3,
         bombs := [],
         game_over := replicate (nat (num_agents g)) False\<rparr>, env'))"

text \<open>
  The loop \<open>for bomb in self.bombs[:]\<close>. The copy holds the same bomb objects as the live
  list, so the bomb in turn is the element of the live list at index \<open>k\<close>, the number of
  bombs kept so far; \<open>n\<close> bombs of the copy are left. \<open>list.remove\<close> deletes the first
  element equal to its argument.
\<close>

fun bomb_loop :: "nat \<Rightarrow> nat \<Rightarrow> game \<Rightarrow> py_error + game" where
  "bomb_loop 0 k g = Inr g"
| "bomb_loop (Suc n) k g =
     (let b = (bombs g ! k)\<lparr>bomb_timer := bomb_timer (bombs g ! k) - update_interval g\<rparr>;
          g1 = g\<lparr>bombs := (bombs g)[k := b]\<rparr>
      in if bomb_timer b \<le> 0 then
           py_bind (explode_bomb g1 b) (\<lambda>g2.
             bomb_loop n k (g2\<lparr>bombs := remove1 b (bombs g2)\<rparr>))
         else bomb_loop n (Suc k) g1)"

definition tick_bombs :: "game \<Rightarrow> py_error + game" where
  "tick_bombs g = bomb_loop (length (bombs g)) 0 g"

text \<open>The body of the loop \<open>for i in range(self.num_agents)\<close>.\<close>

definition agent_turn :: "game \<times> environment \<Rightarrow> int \<Rightarrow> py_error + (game \<times> environment)" where
  "agent_turn w i =
     (let g = fst w; env = snd w in
      py_bind (py_index (game_over g) i) (\<lambda>dead.
      if dead then Inr (g, env)
      else
        py_bind (get_state g i) (\<lambda>current_state.
        py_bind (py_index (agents g) i) (\<lambda>ag.
        py_bind (choose_action ag current_state env) (\<lambda>(action, env1).
        py_bind (perform_action g i action) (\<lambda>(reward, g1).
        py_bind (get_state g1 i) (\<lambda>next_state.
        py_bind (py_index (agents g1) i) (\<lambda>ag1.
        py_bind (update ag1 current_state action reward next_state) (\<lambda>ag2.
        py_bind (py_store (agents g1) i ag2) (\<lambda>ags.
          Inr (g1\<lparr>agents := ags\<rparr>, env1)))))))))))"

fun agents_loop :: "int list \<Rightarrow> game \<times> environment \<Rightarrow> py_error + (game \<times> environment)" where
  "agents_loop [] w = Inr w"
| "agents_loop (i # rest) w = py_bind (agent_turn w i) (agents_loop rest)"

fun save_all :: "(int \<times> QLearningAgent) list \<Rightarrow> environment \<Rightarrow> environment" where
  "save_all [] env = env"
| "save_all ((i, ag) # rest) env = save_all rest (save_q_table ag (qtable_filename i) env)"

text \<open>The last block of the tick: \<open>if all(self.game_over): ...\<close>.\<close>

definition end_of_tick :: "game \<times> environment \<Rightarrow> game \<times> environment" where
  "end_of_tick w =
     (let g = fst w; env = snd w in
      if list_all (\<lambda>x. x) (game_over g) then
        setup_game (g\<lparr>current_episode := current_episode g + 1\<rparr>)
                   (save_all (enumerate_py (agents g)) env)
      else (g, env))"

definition on_update :: "game \<times> environment \<Rightarrow> real \<Rightarrow> py_error + (game \<times> environment)" where
  "on_update w delta_time =
     (let g = (fst w)\<lparr>time_accumulator := time_accumulator (fst w) + delta_time\<rparr> in
      if time_accumulator g < update_interval g then Inr (g, snd w)
      else
        py_bind (tick_bombs (g\<lparr>time_accumulator := 0\<rparr>)) (\<lambda>g1.
        py_bind (agents_loop (range_py (num_agents g1)) (g1, snd w)) (\<lambda>w2.
          Inr (end_of_tick w2))))"

section \<open>Well-formed states\<close>

definition in_bounds :: "int \<times> int \<Rightarrow> bool" where
  "in_bounds p = (0 \<le> fst p \<and> fst p < ROWS \<and> 0 \<le> snd p \<and> snd p < COLS)"

definition wf_grid :: "int list list \<Rightarrow> bool" where
  "wf_grid cells = (int (length cells) = ROWS \<and> list_all (\<lambda>line. int (length line) = COLS) cells)"

definition cell :: "int list list \<Rightarrow> int \<times> int \<Rightarrow> int" where
  "cell cells p = cells ! nat (fst p) ! nat (snd p)"

text \<open>The cell a movement action aims at.\<close>

definition target :: "int \<Rightarrow> int \<times> int \<Rightarrow> int \<times> int" where
  "target action p =
     (if action = 0 then (fst p - 1, snd p)
      else if action = 1 then (fst p + 1, snd p)
      else if action = 2 then (fst p, snd p - 1)
      else (fst p, snd p + 1))"

section \<open>Fixtures\<close>

text \<open>A board with no obstacle, and a one-agent game on it with the agent at (2, 2).\<close>

definition open_grid :: "int list list" where
  "open_grid = replicate 15 (replicate 20 EMPTY)"

definition arena :: game where
  "arena = \<lparr>num_agents = 1, grid = open_grid, agent_positions = [(2, 2)], bombs = [],
            scores = [0], lives = [3], game_over = [False], current_episode = 0,
            max_episodes = 1000, time_accumulator = 0, update_interval = 0.5, agents = []\<rparr>"

text \<open>
  The update rule in the words of the specification: the old estimate \<open>q\<close> moves by
  \<open>\<alpha> (r + \<gamma> m - q)\<close>, \<open>m\<close> being the largest estimate of the next state.
\<close>

definition bellman_rule :: "real \<Rightarrow> real \<Rightarrow> real \<Rightarrow> real \<Rightarrow> real \<Rightarrow> real" where
  "bellman_rule a g q r m = q + a * (r + g * m - q)"


text \<open>An agent with a two by two table of zeros and the default parameters.\<close>

definition fresh_agent :: QLearningAgent where
  "fresh_agent = \<lparr>state_size = 2, action_size = 2, q_table = [[0, 0], [0, 0]],
                  alpha = 0.1, gamma = 0.9, epsilon = 0.1, agent_id = 0\<rparr>"

text \<open>
  An environment with no file, whose draws are all 1 (no block is drawn and no agent
  explores), and an agent as the constructor of the game makes it.
\<close>

definition quiet_env :: environment where
  "quiet_env = \<lparr>random_draws = (\<lambda>k. 1), random_used = 0, np_uniform = (\<lambda>k. 1),
                np_integer = (\<lambda>k. 0), np_used = 0, files = []\<rparr>"

definition table_agent :: QLearningAgent where
  "table_agent = \<lparr>state_size = 300, action_size = 5, q_table = replicate 300 (replicate 5 0),
                  alpha = 0.1, gamma = 0.9, epsilon = 0.1, agent_id = 0\<rparr>"

section \<open>The blast in the words of the specification\<close>

text \<open>The grid with one cell replaced.\<close>

definition set_cell :: "int list list \<Rightarrow> int \<times> int \<Rightarrow> int \<Rightarrow> int list list" where
  "set_cell cells p v = cells[nat (fst p) := (cells ! nat (fst p))[nat (snd p) := v]]"


text \<open>
  The cells one direction reaches, nearest first: an Indestructible cell stops the walk
  and is not reached, a Destructible cell is reached and stops it, any other cell is
  reached and the walk goes on. A position off the board is passed over.
\<close>

fun spec_walk :: "int list list \<Rightarrow> (int \<times> int) list \<Rightarrow> (int \<times> int) list" where
  "spec_walk cells [] = []"
| "spec_walk cells (p # ps) =
     (if \<not> in_bounds p then spec_walk cells ps
      else if cell cells p = INDESTRUCTIBLE then []
      else if cell cells p = DESTRUCTIBLE then [p]
      else p # spec_walk cells ps)"


text \<open>The two positions at distance 1 and 2 in a direction, and the four directions.\<close>

definition ray :: "int \<Rightarrow> int \<Rightarrow> int \<times> int \<Rightarrow> (int \<times> int) list" where
  "ray row col d = [(row + fst d, col + snd d), (row + 2 * fst d, col + 2 * snd d)]"

definition directions :: "(int \<times> int) list" where
  "directions = [(0, 1), (0, - 1), (1, 0), (- 1, 0)]"


text \<open>
  The grid after the blast: among the cells reached, the Destructible ones are Empty, and
  every other cell of the board is as before.
\<close>

definition cleared :: "int list list \<Rightarrow> (int \<times> int) list \<Rightarrow> int list list \<Rightarrow> bool" where
  "cleared cells ws cells' =
     (wf_grid cells' \<and>
      (\<forall>q. in_bounds q \<longrightarrow>
         cell cells' q = (if q \<in> set ws \<and> cell cells q = DESTRUCTIBLE then EMPTY else cell cells q)))"


text \<open>The open board with a Destructible block at (2, 3) and an Indestructible one at (2, 1).\<close>

definition walls :: "int list list" where
  "walls = set_cell (set_cell open_grid (2, 3) DESTRUCTIBLE) (2, 1) INDESTRUCTIBLE"

text \<open>Agent \<open>i\<close> stands on an affected cell and is not yet eliminated.\<close>

definition struck :: "(int \<times> int) list \<Rightarrow> game \<Rightarrow> nat \<Rightarrow> bool" where
  "struck affected g i = (agent_positions g ! i \<in> set affected \<and> \<not> game_over g ! i)"

section \<open>Notions for the life of a bomb\<close>

text \<open>
  A state on which the tick runs without an exception: a board of the right shape, and one
  life count and one flag for every position.
\<close>

definition wf_game :: "game \<Rightarrow> bool" where
  "wf_game g = (wf_grid (grid g) \<and> length (lives g) = length (agent_positions g) \<and>
                length (game_over g) = length (agent_positions g))"


text \<open>A bomb after its fuse has burnt for \<open>dt\<close>.\<close>

definition aged :: "real \<Rightarrow> bomb \<Rightarrow> bomb" where
  "aged dt b = b\<lparr>bomb_timer := bomb_timer b - dt\<rparr>"


text \<open>The explosions of a list of bombs, one after the other.\<close>

fun explode_all :: "bomb list \<Rightarrow> game \<Rightarrow> py_error + game" where
  "explode_all [] g = Inr g"
| "explode_all (b # bs) g = py_bind (explode_bomb g b) (explode_all bs)"


text \<open>The countdown of the bombs run \<open>n\<close> times in a row.\<close>

fun ticks :: "nat \<Rightarrow> game \<Rightarrow> py_error + game" where
  "ticks 0 g = Inr g"
| "ticks (Suc n) g = py_bind (ticks n g) tick_bombs"


text \<open>Replacing the bomb list, as a step of a computation.\<close>

definition set_bombs :: "bomb list \<Rightarrow> game \<Rightarrow> py_error + game" where
  "set_bombs bs g = Inr (g\<lparr>bombs := bs\<rparr>)"


text \<open>The bomb the agent of the arena places.\<close>

definition fresh_bomb :: bomb where
  "fresh_bomb = \<lparr>bomb_row = 2, bomb_col = 2, bomb_timer = 3, bomb_owner = 0\<rparr>"

section \<open>Notions for the end of an episode\<close>

text \<open>The writes that persist the tables of a list of agents, one for each agent in order.\<close>

definition saved :: "QLearningAgent list \<Rightarrow> (string \<times> npy_file) list" where
  "saved ags = map (\<lambda>(i, ag). (qtable_filename i, Array (q_table ag))) (enumerate_py ags)"


text \<open>The positions \<open>setup\<close> gives to \<open>n\<close> agents.\<close>

definition spawn :: "int \<Rightarrow> (int \<times> int) list" where
  "spawn n = map (\<lambda>i. (1, 1 + i * 3)) (range_py n)"


text \<open>The arena when its only agent, with a table of its own, has lost its last life.\<close>

definition fallen :: game where
  "fallen = arena\<lparr>lives := [0], game_over := [True], agents := [fresh_agent]\<rparr>"

section \<open>Notions for the start of an episode\<close>

text \<open>
  Draws that put one block on the board, at row 1 and column 1: the draw of that cell is
  0, the draw that chooses the kind of block is \<open>v\<close>, and every other draw is 1.
\<close>

definition block_env :: "real \<Rightarrow> environment" where
  "block_env v = quiet_env\<lparr>random_draws := (\<lambda>k. if k = 21 then 0 else if k = 22 then v else 1)\<rparr>"


text \<open>
  The states a game of at most seven agents reaches by \<open>setup\<close>, by the actions of its
  agents and by explosions.
\<close>

inductive reachable :: "game \<Rightarrow> bool" where
  start: "num_agents g \<le> 7 \<Longrightarrow> reachable (fst (setup_game g env))"
| act: "reachable g \<Longrightarrow> perform_action g i a = Inr (r, g') \<Longrightarrow> reachable g'"
| boom: "reachable g \<Longrightarrow> explode_bomb g b = Inr g' \<Longrightarrow> reachable g'"


text \<open>The state \<open>setup\<close> makes for a game of eight agents.\<close>

definition crowded :: game where
  "crowded = fst (setup_game (arena\<lparr>num_agents := 8\<rparr>) quiet_env)"

section \<open>Basic facts\<close>

lemma py_bind_Inr [simp]: "py_bind (Inr x) f = f x"
  by (simp add: py_bind_def)

lemma py_bind_Inl [simp]: "py_bind (Inl e) f = Inl e"
  by (simp add: py_bind_def)

lemma ROWS_val: "ROWS = 15"
  by (simp add: ROWS_def SCREEN_HEIGHT_def CELL_SIZE_def)

lemma COLS_val: "COLS = 20"
  by (simp add: COLS_def SCREEN_WIDTH_def CELL_SIZE_def)

lemma subscript_nonneg: "0 \<le> i \<Longrightarrow> i < int n \<Longrightarrow> subscript n i = Some (nat i)"
  by (simp add: subscript_def)

lemma py_index_nonneg: "0 \<le> i \<Longrightarrow> i < int (length xs) \<Longrightarrow> py_index xs i = Inr (xs ! nat i)"
  by (simp add: py_index_def subscript_nonneg)

lemma py_index_slot:
  "py_index xs i = Inr x \<Longrightarrow> \<exists>k < length xs. subscript (length xs) i = Some k \<and> xs ! k = x"
  by (auto simp: py_index_def subscript_def split: if_splits option.splits)

lemma grid_get_in_bounds:
  assumes "wf_grid cells" "in_bounds p"
  shows "grid_get cells (fst p) (snd p) = Inr (cell cells p)"
proof -
  from assms have r: "0 \<le> fst p" "fst p < int (length cells)"
    by (simp_all add: wf_grid_def in_bounds_def)
  then have "nat (fst p) < length cells" by linarith
  with assms(1) have "int (length (cells ! nat (fst p))) = COLS"
    by (simp add: wf_grid_def list_all_length)
  with assms(2) have c: "0 \<le> snd p" "snd p < int (length (cells ! nat (fst p)))"
    by (simp_all add: in_bounds_def)
  show ?thesis
    by (simp add: grid_get_def cell_def py_index_nonneg r c)
qed

lemma move_guard_off [simp]: "move_guard g False r c = Inr False"
  by (simp add: move_guard_def)

lemma move_guard_eval:
  "wf_grid (grid g) \<Longrightarrow> (enabled \<Longrightarrow> in_bounds (r, c)) \<Longrightarrow>
     move_guard g enabled r c = Inr (enabled \<and> cell (grid g) (r, c) = EMPTY)"
  using grid_get_in_bounds [of "grid g" "(r, c)"] by (simp add: move_guard_def)


lemma wf_open_grid: "wf_grid open_grid"
  by (simp add: wf_grid_def open_grid_def ROWS_val COLS_val list_all_iff)

lemma cell_open_grid:
  assumes "in_bounds p"
  shows "cell open_grid p = EMPTY"
proof -
  from assms have "nat (fst p) < 15" "nat (snd p) < 20"
    unfolding in_bounds_def ROWS_val COLS_val by linarith+
  then show ?thesis
    by (simp add: cell_def open_grid_def)
qed


section \<open>Acting while eliminated\<close>

text \<open>
  C9. For an agent whose elimination flag is set, perform\_action returns the reward
  -100 whatever the action is, and the state it leaves is the state it found: positions,
  grid, bombs, lives and flags are all the same.
\<close>

theorem eliminated_agent_penalty:
  assumes "py_index (game_over g) agent_index = Inr True"
  shows "perform_action g agent_index action = Inr (- 100, g)"
  using assms by (simp add: perform_action_def)

theorem eliminated_agent_penalty_witness:
  "perform_action (arena\<lparr>game_over := [True]\<rparr>) 0 4 = Inr (- 100, arena\<lparr>game_over := [True]\<rparr>)"
  using eliminated_agent_penalty [of "arena\<lparr>game_over := [True]\<rparr>" 0 4]
  by (simp add: py_index_def subscript_def arena_def)


section \<open>Movement\<close>

text \<open>
  A live agent stands at \<open>p\<close> on the board of a well-formed grid and takes a movement
  action (0 Up, 1 Down, 2 Left, 3 Right). When the cell aimed at is on the board and Empty,
  perform\_action returns the reward 5 and the agent's entry of the position list becomes
  that cell, nothing else changing; in every other case it returns -1 and the state is
  unchanged. The agent has to stand on the board for this: an agent off the board is the
  subject of the section on positions.
\<close>

lemma perform_action_move:
  assumes wf: "wf_grid (grid g)"
    and alive: "py_index (game_over g) agent_index = Inr False"
    and pos: "py_index (agent_positions g) agent_index = Inr p"
    and inb: "in_bounds p"
    and act: "action = 0 \<or> action = 1 \<or> action = 2 \<or> action = 3"
  shows "\<exists>k < length (agent_positions g).
           subscript (length (agent_positions g)) agent_index = Some k \<and>
           perform_action g agent_index action =
             (if in_bounds (target action p) \<and> cell (grid g) (target action p) = EMPTY
              then Inr (5, g\<lparr>agent_positions := (agent_positions g)[k := target action p]\<rparr>)
              else Inr (- 1, g))"
proof -
  obtain row col where p: "p = (row, col)" by (cases p)
  from py_index_slot [OF pos] obtain k where k: "k < length (agent_positions g)"
    "subscript (length (agent_positions g)) agent_index = Some k"
    by blast
  have st: "\<And>v. py_store (agent_positions g) agent_index v = Inr ((agent_positions g)[k := v])"
    by (simp add: py_store_def k)
  have mv: "\<And>q. move_to g agent_index q = Inr (5, g\<lparr>agent_positions := (agent_positions g)[k := q]\<rparr>)"
    by (simp add: move_to_def st)
  from inb p have b: "0 \<le> row" "row < ROWS" "0 \<le> col" "col < COLS"
    by (simp_all add: in_bounds_def)
  have up: "move_guard g (action = 0 \<and> row > 0) (row - 1) col =
      Inr ((action = 0 \<and> row > 0) \<and> cell (grid g) (row - 1, col) = EMPTY)"
    using b by (intro move_guard_eval [OF wf]) (simp add: in_bounds_def)
  have down: "move_guard g (action = 1 \<and> row < ROWS - 1) (row + 1) col =
      Inr ((action = 1 \<and> row < ROWS - 1) \<and> cell (grid g) (row + 1, col) = EMPTY)"
    using b by (intro move_guard_eval [OF wf]) (simp add: in_bounds_def)
  have left: "move_guard g (action = 2 \<and> col > 0) row (col - 1) =
      Inr ((action = 2 \<and> col > 0) \<and> cell (grid g) (row, col - 1) = EMPTY)"
    using b by (intro move_guard_eval [OF wf]) (simp add: in_bounds_def)
  have right: "move_guard g (action = 3 \<and> col < COLS - 1) row (col + 1) =
      Inr ((action = 3 \<and> col < COLS - 1) \<and> cell (grid g) (row, col + 1) = EMPTY)"
    using b by (intro move_guard_eval [OF wf]) (simp add: in_bounds_def)
  have pa: "perform_action g agent_index action =
    (if (action = 0 \<and> row > 0) \<and> cell (grid g) (row - 1, col) = EMPTY then move_to g agent_index (row - 1, col)
     else if (action = 1 \<and> row < ROWS - 1) \<and> cell (grid g) (row + 1, col) = EMPTY then move_to g agent_index (row + 1, col)
     else if (action = 2 \<and> col > 0) \<and> cell (grid g) (row, col - 1) = EMPTY then move_to g agent_index (row, col - 1)
     else if (action = 3 \<and> col < COLS - 1) \<and> cell (grid g) (row, col + 1) = EMPTY then move_to g agent_index (row, col + 1)
     else Inr (- 1, g))"
    unfolding perform_action_def alive pos p py_bind_Inr prod.case up down left right if_False
    using act by auto
  show ?thesis
    using act b k by (auto simp: pa mv p target_def in_bounds_def)
qed


text \<open>
  The lemma at work in the arena: from (2, 2) the agent moves up to (1, 2) with reward 5,
  and at column 0 a move to the left is refused with reward -1.
\<close>

lemma arena_moves:
  "perform_action arena 0 0 = Inr (5, arena\<lparr>agent_positions := [(1, 2)]\<rparr>) \<and>
   perform_action (arena\<lparr>agent_positions := [(2, 0)]\<rparr>) 0 2 = Inr (- 1, arena\<lparr>agent_positions := [(2, 0)]\<rparr>)"
proof -
  have a: "perform_action arena 0 0 = Inr (5, arena\<lparr>agent_positions := [(1, 2)]\<rparr>)"
    using perform_action_move [of arena 0 "(2, 2)" 0] wf_open_grid cell_open_grid [of "(1, 2)"]
    by (simp add: arena_def py_index_def subscript_def in_bounds_def target_def ROWS_val COLS_val)
  have b: "perform_action (arena\<lparr>agent_positions := [(2, 0)]\<rparr>) 0 2 = Inr (- 1, arena\<lparr>agent_positions := [(2, 0)]\<rparr>)"
    using perform_action_move [of "arena\<lparr>agent_positions := [(2, 0)]\<rparr>" 0 "(2, 0)" 2] wf_open_grid
    by (simp add: arena_def py_index_def subscript_def in_bounds_def target_def ROWS_val COLS_val)
  show ?thesis using a b by simp
qed

section \<open>The update of the value table\<close>

lemma np_max_Max:
  assumes "xs \<noteq> []"
  shows "np_max xs = Inr (Max (set xs))"
proof (cases xs)
  case Nil
  with assms show ?thesis by simp
next
  case (Cons x rest)
  have "fold max rest x = Max (set (x # rest))"
    by (rule Max.set_eq_fold [symmetric])
  with Cons show ?thesis by simp
qed

lemma py_store_slot: "subscript (length xs) i = Some k \<Longrightarrow> py_store xs i v = Inr (xs[k := v])"
  by (simp add: py_store_def)


text \<open>
  C2. When the rows of \<open>state\<close> and \<open>next_state\<close> and the column \<open>action\<close> exist, update
  returns the agent with a table that differs from the old one in the single entry
  \<open>(state, action)\<close>, whose new value is the old value plus \<open>\<alpha> (r + \<gamma> max Q[s'] - Q[s,a])\<close>.
  With \<open>\<alpha> = 0.1\<close>, \<open>\<gamma> = 0.9\<close>, an old value 0, reward 5 and a next row whose maximum is 0,
  the new value is 0.5.
\<close>

theorem bellman_update:
  assumes nl: "py_index (q_table ag) next_state = Inr next_line"
    and ne: "next_line \<noteq> []"
    and ln: "py_index (q_table ag) state = Inr line"
    and qv: "py_index line action = Inr q"
  shows "\<exists>s a t. s < length (q_table ag) \<and> a < length line \<and>
           subscript (length (q_table ag)) state = Some s \<and>
           subscript (length line) action = Some a \<and>
           t = (q_table ag)[s := line[a := bellman_rule (alpha ag) (gamma ag) q
                                             (real_of_int reward) (Max (set next_line))]] \<and>
           update ag state action reward next_state = Inr (ag\<lparr>q_table := t\<rparr>) \<and>
           t ! s ! a = bellman_rule (alpha ag) (gamma ag) q (real_of_int reward) (Max (set next_line)) \<and>
           (\<forall>m n. m < length t \<and> (m, n) \<noteq> (s, a) \<longrightarrow> t ! m ! n = q_table ag ! m ! n) \<and>
           (alpha ag = 0.1 \<and> gamma ag = 0.9 \<and> q = 0 \<and> reward = 5 \<and> Max (set next_line) = 0
              \<longrightarrow> t ! s ! a = 0.5)"
proof -
  from py_index_slot [OF ln] obtain s where s: "s < length (q_table ag)"
    "subscript (length (q_table ag)) state = Some s" "q_table ag ! s = line" by blast
  from py_index_slot [OF qv] obtain a where a: "a < length line"
    "subscript (length line) action = Some a" "line ! a = q" by blast
  define v where "v = bellman_rule (alpha ag) (gamma ag) q (real_of_int reward) (Max (set next_line))"
  define t where "t = (q_table ag)[s := line[a := v]]"
  have upd: "update ag state action reward next_state = Inr (ag\<lparr>q_table := t\<rparr>)"
    by (simp add: update_def nl ln qv np_max_Max [OF ne] py_store_slot [OF a(2)]
        py_store_slot [OF s(2)] t_def v_def bellman_rule_def)
  have hit: "t ! s ! a = v"
    using s a by (simp add: t_def)
  have frame: "\<forall>m n. m < length t \<and> (m, n) \<noteq> (s, a) \<longrightarrow> t ! m ! n = q_table ag ! m ! n"
    using s a by (auto simp: t_def nth_list_update)
  have num: "alpha ag = 0.1 \<and> gamma ag = 0.9 \<and> q = 0 \<and> reward = 5 \<and> Max (set next_line) = 0
              \<longrightarrow> t ! s ! a = 0.5"
    by (simp add: hit v_def bellman_rule_def)
  show ?thesis
    using s(1,2) a(1,2) upd hit frame num unfolding v_def t_def by blast
qed

theorem bellman_update_witness:
  "update fresh_agent 0 1 5 1 = Inr (fresh_agent\<lparr>q_table := [[0, 0.5], [0, 0]]\<rparr>)"
  using bellman_update [of fresh_agent 1 "[0, 0]" 0 "[0, 0]" 1 0 5]
  by (auto simp: fresh_agent_def py_index_def subscript_def bellman_rule_def)

section \<open>Loading a persisted table\<close>

lemma init_table_agent:
  "QLearningAgent_init (ROWS * COLS) (int (length ACTIONS)) 0.1 0.9 0.1 0 = Inr table_agent"
  by (simp add: QLearningAgent_init_def np_zeros_def ROWS_val COLS_val ACTIONS_def table_agent_def)


text \<open>
  C7, as the specification states it, fails: a stored array of another shape is read
  without complaint and replaces the 300 by 5 table, which is not what happens when the
  file is missing; and an unreadable file makes \<open>np.load\<close> raise an exception that
  load\_q\_table does not catch.
\<close>

theorem load_wrong_shape_counterexample:
  "load_q_table table_agent ''agent_1_qtable.npy''
       (quiet_env\<lparr>files := [(''agent_1_qtable.npy'', Array [[1]])]\<rparr>)
     = Inr (table_agent\<lparr>q_table := [[1]]\<rparr>) \<and>
   load_q_table table_agent ''agent_1_qtable.npy'' quiet_env = Inr table_agent \<and>
   length (q_table table_agent) = 300 \<and>
   load_q_table table_agent ''agent_1_qtable.npy''
       (quiet_env\<lparr>files := [(''agent_1_qtable.npy'', Unreadable)]\<rparr>) = Inl ValueError"
  by (simp add: load_q_table_def np_load_def file_content_def quiet_env_def table_agent_def)


text \<open>
  C7, amended. For an agent made by the constructor with \<open>ROWS * COLS\<close> states and
  \<open>len(ACTIONS)\<close> actions, the table is the 300 by 5 table of zeros. Loading a missing file
  returns the agent as it is and raises nothing; loading a file that holds an array puts
  that array in place of the table, whatever its shape; an unreadable file raises to the
  caller.
\<close>

theorem load_q_table_outcomes:
  assumes "QLearningAgent_init (ROWS * COLS) (int (length ACTIONS)) a g e i = Inr ag"
  shows "q_table ag = replicate 300 (replicate 5 0) \<and>
         (file_content env filename = None \<longrightarrow> load_q_table ag filename env = Inr ag) \<and>
         (\<forall>t. file_content env filename = Some (Array t) \<longrightarrow>
              load_q_table ag filename env = Inr (ag\<lparr>q_table := t\<rparr>)) \<and>
         (file_content env filename = Some Unreadable \<longrightarrow>
              load_q_table ag filename env = Inl ValueError)"
  using assms
  by (auto simp: load_q_table_def np_load_def QLearningAgent_init_def np_zeros_def
      ROWS_val COLS_val ACTIONS_def)

theorem load_q_table_outcomes_witness:
  "q_table table_agent = replicate 300 (replicate 5 0) \<and>
   load_q_table table_agent ''agent_1_qtable.npy'' quiet_env = Inr table_agent"
  using load_q_table_outcomes [OF init_table_agent, of quiet_env "''agent_1_qtable.npy''"]
  by (simp add: file_content_def quiet_env_def)

section \<open>The shape of a blast\<close>

lemma in_bounds_nat:
  assumes "wf_grid cells" "in_bounds p"
  shows "nat (fst p) < length cells" "nat (snd p) < length (cells ! nat (fst p))"
    "0 \<le> fst p" "0 \<le> snd p"
proof -
  from assms show r: "nat (fst p) < length cells"
    unfolding wf_grid_def in_bounds_def by linarith
  from assms r have "int (length (cells ! nat (fst p))) = COLS"
    by (simp add: wf_grid_def list_all_length)
  with assms show "nat (snd p) < length (cells ! nat (fst p))"
    unfolding in_bounds_def by linarith
  from assms show "0 \<le> fst p" "0 \<le> snd p" by (simp_all add: in_bounds_def)
qed

lemma grid_set_in_bounds:
  assumes "wf_grid cells" "in_bounds p"
  shows "grid_set cells (fst p) (snd p) v = Inr (set_cell cells p v)"
proof -
  note b = in_bounds_nat [OF assms]
  have r: "subscript (length cells) (fst p) = Some (nat (fst p))"
    using b by (intro subscript_nonneg) linarith+
  have c: "subscript (length (cells ! nat (fst p))) (snd p) = Some (nat (snd p))"
    using b by (intro subscript_nonneg) linarith+
  show ?thesis
    by (simp add: grid_set_def py_index_def py_store_def r c set_cell_def)
qed

lemma wf_set_cell:
  assumes "wf_grid cells"
  shows "wf_grid (set_cell cells p v)"
proof -
  have "int (length (set_cell cells p v ! n)) = COLS" if "n < length cells" for n
  proof (cases "n = nat (fst p)")
    case True
    with that assms show ?thesis by (simp add: set_cell_def wf_grid_def list_all_length)
  next
    case False
    with that assms show ?thesis by (simp add: set_cell_def wf_grid_def list_all_length)
  qed
  with assms show ?thesis
    by (simp add: wf_grid_def list_all_length set_cell_def)
qed

lemma cell_set_cell:
  assumes "wf_grid cells" "in_bounds p" "in_bounds q"
  shows "cell (set_cell cells p v) q = (if q = p then v else cell cells q)"
proof -
  note bp = in_bounds_nat [OF assms(1,2)]
  note bq = in_bounds_nat [OF assms(1,3)]
  have "q = p \<longleftrightarrow> nat (fst q) = nat (fst p) \<and> nat (snd q) = nat (snd p)"
    using bp bq by (auto simp: prod_eq_iff)
  then show ?thesis
    using bp bq by (auto simp: cell_def set_cell_def nth_list_update)
qed

lemma cells_distinct: "EMPTY \<noteq> DESTRUCTIBLE" "DESTRUCTIBLE \<noteq> INDESTRUCTIBLE" "EMPTY \<noteq> INDESTRUCTIBLE"
  by (simp_all add: EMPTY_def DESTRUCTIBLE_def INDESTRUCTIBLE_def)

lemma spec_walk_subset: "set (spec_walk cells ps) \<subseteq> set ps"
  by (induction ps) auto

lemma spec_walk_in_bounds: "p \<in> set (spec_walk cells ps) \<Longrightarrow> in_bounds p"
  by (induction ps) (auto split: if_splits)

lemma spec_walk_cong:
  "(\<And>p. p \<in> set ps \<Longrightarrow> in_bounds p \<Longrightarrow> cell a p = cell b p) \<Longrightarrow> spec_walk a ps = spec_walk b ps"
  by (induction ps) auto

lemma cleared_refl: "wf_grid cells \<Longrightarrow> cleared cells [] cells"
  by (simp add: cleared_def)

lemma scan_step:
  assumes "wf_grid cells"
  shows "scan row col d (i # rest) (cells, aff) =
     (if \<not> in_bounds (row + fst d * i, col + snd d * i) then scan row col d rest (cells, aff)
      else if cell cells (row + fst d * i, col + snd d * i) = INDESTRUCTIBLE then Inr (cells, aff)
      else if cell cells (row + fst d * i, col + snd d * i) = DESTRUCTIBLE
        then Inr (set_cell cells (row + fst d * i, col + snd d * i) EMPTY,
                  aff @ [(row + fst d * i, col + snd d * i)])
      else scan row col d rest (cells, aff @ [(row + fst d * i, col + snd d * i)]))"
proof -
  let ?p = "(row + fst d * i, col + snd d * i)"
  have eq: "(0 \<le> row + fst d * i \<and> row + fst d * i < ROWS \<and> 0 \<le> col + snd d * i \<and>
             col + snd d * i < COLS) = in_bounds ?p"
    by (simp add: in_bounds_def)
  show ?thesis
  proof (cases "in_bounds ?p")
    case False
    then show ?thesis unfolding scan.simps Let_def eq by simp
  next
    case True
    have get: "grid_get cells (row + fst d * i) (col + snd d * i) = Inr (cell cells ?p)"
      using grid_get_in_bounds [OF assms True] by simp
    have put: "grid_set cells (row + fst d * i) (col + snd d * i) EMPTY = Inr (set_cell cells ?p EMPTY)"
      using grid_set_in_bounds [OF assms True] by simp
    show ?thesis unfolding scan.simps Let_def eq fst_conv snd_conv get put py_bind_Inr
      using True by simp
  qed
qed

lemma scan_walk:
  assumes "wf_grid cells"
  shows "\<exists>cells'. scan row col d is (cells, aff) =
            Inr (cells', aff @ spec_walk cells (map (\<lambda>i. (row + fst d * i, col + snd d * i)) is)) \<and>
          cleared cells (spec_walk cells (map (\<lambda>i. (row + fst d * i, col + snd d * i)) is)) cells'"
proof (induction "is" arbitrary: aff)
  case Nil
  show ?case using assms by (simp add: cleared_refl)
next
  case (Cons i rest)
  let ?p = "(row + fst d * i, col + snd d * i)"
  let ?ps = "map (\<lambda>i. (row + fst d * i, col + snd d * i)) rest"
  consider (out) "\<not> in_bounds ?p"
    | (ind) "in_bounds ?p" "cell cells ?p = INDESTRUCTIBLE"
    | (des) "in_bounds ?p" "cell cells ?p = DESTRUCTIBLE"
    | (oth) "in_bounds ?p" "cell cells ?p \<noteq> INDESTRUCTIBLE" "cell cells ?p \<noteq> DESTRUCTIBLE"
    by blast
  then show ?case
  proof cases
    case out
    with Cons [of aff] show ?thesis by (simp del: scan.simps add: scan_step [OF assms])
  next
    case ind
    then show ?thesis using assms by (simp del: scan.simps add: scan_step [OF assms] cleared_refl)
  next
    case des
    have "cleared cells [?p] (set_cell cells ?p EMPTY)"
      using assms des by (auto simp: cleared_def wf_set_cell cell_set_cell)
    with des show ?thesis using cells_distinct by (simp del: scan.simps add: scan_step [OF assms])
  next
    case oth
    from Cons [of "aff @ [?p]"] obtain cells' where
      s: "scan row col d rest (cells, aff @ [?p]) = Inr (cells', (aff @ [?p]) @ spec_walk cells ?ps)"
      and c: "cleared cells (spec_walk cells ?ps) cells'" by blast
    from c oth have "cleared cells (?p # spec_walk cells ?ps) cells'"
      by (auto simp: cleared_def)
    with s oth show ?thesis by (simp del: scan.simps add: scan_step [OF assms])
  qed
qed


lemma cleared_trans:
  assumes "cleared a w1 b" "cleared b w2 c"
  shows "cleared a (w1 @ w2) c"
  using assms cells_distinct(1) unfolding cleared_def by auto

lemma ray_map: "map (\<lambda>i. (row + fst d * i, col + snd d * i)) [1, 2] = ray row col d"
  by (simp add: ray_def mult.commute)

lemma scan_ray:
  assumes "wf_grid cells"
  shows "\<exists>cells'. scan row col d [1, 2] (cells, aff) =
            Inr (cells', aff @ spec_walk cells (ray row col d)) \<and>
          cleared cells (spec_walk cells (ray row col d)) cells'"
  using scan_walk [OF assms, of row col d "[1, 2]" aff] unfolding ray_map .

lemma sweep_walk:
  assumes "wf_grid cells0"
  shows "cleared cells0 past cells \<Longrightarrow>
         set past \<inter> set (concat (map (ray row col) ds)) = {} \<Longrightarrow>
         distinct (concat (map (ray row col) ds)) \<Longrightarrow>
         \<exists>cells'. sweep row col ds (cells, aff) =
             Inr (cells', aff @ concat (map (\<lambda>d. spec_walk cells0 (ray row col d)) ds)) \<and>
           cleared cells0 (past @ concat (map (\<lambda>d. spec_walk cells0 (ray row col d)) ds)) cells'"
proof (induction ds arbitrary: past cells aff)
  case Nil
  then show ?case by simp
next
  case (Cons d ds)
  from Cons.prems(1) have wf: "wf_grid cells" by (simp add: cleared_def)
  have same: "spec_walk cells (ray row col d) = spec_walk cells0 (ray row col d)"
  proof (rule spec_walk_cong)
    fix p assume p: "p \<in> set (ray row col d)" "in_bounds p"
    with Cons.prems(2) have "p \<notin> set past" by auto
    moreover from Cons.prems(1) p(2) have
      "cell cells p = (if p \<in> set past \<and> cell cells0 p = DESTRUCTIBLE then EMPTY else cell cells0 p)"
      unfolding cleared_def by blast
    ultimately show "cell cells p = cell cells0 p" by simp
  qed
  let ?w = "spec_walk cells0 (ray row col d)"
  from scan_ray [OF wf, of row col d aff] same obtain cells1 where
    sc: "scan row col d [1, 2] (cells, aff) = Inr (cells1, aff @ ?w)"
    and cl: "cleared cells ?w cells1" by auto
  have cl1: "cleared cells0 (past @ ?w) cells1"
    by (rule cleared_trans [OF Cons.prems(1) cl])
  have sub: "set ?w \<subseteq> set (ray row col d)" by (rule spec_walk_subset)
  have dj: "set (past @ ?w) \<inter> set (concat (map (ray row col) ds)) = {}"
    using Cons.prems(2,3) sub by auto
  have ds: "distinct (concat (map (ray row col) ds))"
    using Cons.prems(3) by simp
  from Cons.IH [OF cl1 dj ds, of "aff @ ?w"] obtain cells' where
    "sweep row col ds (cells1, aff @ ?w) =
       Inr (cells', (aff @ ?w) @ concat (map (\<lambda>d. spec_walk cells0 (ray row col d)) ds))"
    "cleared cells0 ((past @ ?w) @ concat (map (\<lambda>d. spec_walk cells0 (ray row col d)) ds)) cells'"
    by blast
  with sc show ?case by simp
qed

lemma rays_distinct: "distinct ((row, col) # concat (map (ray row col) directions))"
  by (simp add: directions_def ray_def)

lemma blast_walk:
  assumes "wf_grid cells"
  shows "\<exists>cells'. blast cells row col =
            Inr (cells', (row, col) # concat (map (\<lambda>d. spec_walk cells (ray row col d)) directions)) \<and>
          cleared cells (concat (map (\<lambda>d. spec_walk cells (ray row col d)) directions)) cells'"
proof -
  have d: "distinct (concat (map (ray row col) directions))"
    using rays_distinct [of row col] by simp
  from sweep_walk [OF assms cleared_refl [OF assms] _ d, of "[(row, col)]"]
  show ?thesis
    by (simp add: blast_def directions_def)
qed


lemma ray_apart:
  assumes "d \<in> set directions" "e \<in> set directions" "c \<in> set (ray row col d)"
    "c \<in> set (ray row col e)"
  shows "e = d"
  using assms by (auto simp: directions_def ray_def)

lemma ray_off_centre: "d \<in> set directions \<Longrightarrow> (row, col) \<notin> set (ray row col d)"
  by (auto simp: directions_def ray_def)

lemma affected_ray:
  assumes d: "d \<in> set directions" and c: "c \<in> set (ray row col d)"
  shows "c \<in> set ((row, col) # concat (map (\<lambda>d. spec_walk cells (ray row col d)) directions))
         \<longleftrightarrow> c \<in> set (spec_walk cells (ray row col d))"
proof
  assume "c \<in> set ((row, col) # concat (map (\<lambda>d. spec_walk cells (ray row col d)) directions))"
  with ray_off_centre [OF d] c obtain e where e: "e \<in> set directions"
    "c \<in> set (spec_walk cells (ray row col e))" by auto
  with spec_walk_subset have "c \<in> set (ray row col e)" by blast
  from ray_apart [OF d e(1) c this] e(2) show "c \<in> set (spec_walk cells (ray row col d))" by simp
next
  assume "c \<in> set (spec_walk cells (ray row col d))"
  with d show "c \<in> set ((row, col) # concat (map (\<lambda>d. spec_walk cells (ray row col d)) directions))"
    by auto
qed


text \<open>
  C3. On a well-formed board the blast of a bomb at \<open>(row, col)\<close> succeeds. The affected
  list is the bomb's own cell followed, for each of the four directions in turn, by the
  cells the walk of at most two steps reaches. The grid changes only at reached cells
  that were Destructible, which become Empty. For every direction, with \<open>c1\<close> and \<open>c2\<close>
  the cells at distance 1 and 2 and \<open>c1\<close> on the board: an Indestructible \<open>c1\<close> keeps both
  \<open>c1\<close> and \<open>c2\<close> out of the list; a Destructible \<open>c1\<close> is in the list, becomes Empty and
  keeps \<open>c2\<close> out; an Empty \<open>c1\<close> is in the list, and then \<open>c2\<close>, when on the board, is in
  the list exactly when it is not Indestructible, and is made Empty when Destructible.
\<close>

theorem blast_plus_shape:
  assumes "wf_grid cells"
  shows "\<exists>cells' reached affected.
     blast cells row col = Inr (cells', affected) \<and>
     reached = concat (map (\<lambda>d. spec_walk cells (ray row col d)) directions) \<and>
     affected = (row, col) # reached \<and>
     wf_grid cells' \<and>
     (\<forall>q. in_bounds q \<longrightarrow>
        cell cells' q = (if q \<in> set reached \<and> cell cells q = DESTRUCTIBLE then EMPTY else cell cells q)) \<and>
     (\<forall>d \<in> set directions. \<forall>c1 c2. ray row col d = [c1, c2] \<and> in_bounds c1 \<longrightarrow>
        (cell cells c1 = INDESTRUCTIBLE \<longrightarrow> c1 \<notin> set affected \<and> c2 \<notin> set affected) \<and>
        (cell cells c1 = DESTRUCTIBLE \<longrightarrow>
           c1 \<in> set affected \<and> cell cells' c1 = EMPTY \<and> c2 \<notin> set affected) \<and>
        (cell cells c1 = EMPTY \<longrightarrow>
           c1 \<in> set affected \<and> cell cells' c1 = EMPTY \<and>
           (in_bounds c2 \<longrightarrow>
              (c2 \<in> set affected \<longleftrightarrow> cell cells c2 \<noteq> INDESTRUCTIBLE) \<and>
              (cell cells c2 = DESTRUCTIBLE \<longrightarrow> cell cells' c2 = EMPTY))))"
proof -
  define reached where "reached = concat (map (\<lambda>d. spec_walk cells (ray row col d)) directions)"
  define affected where "affected = (row, col) # reached"
  from blast_walk [OF assms, of row col] obtain cells' where
    b: "blast cells row col = Inr (cells', affected)" and cl: "cleared cells reached cells'"
    unfolding reached_def affected_def by blast
  from cl have wf': "wf_grid cells'" and
    after: "\<And>q. in_bounds q \<Longrightarrow>
        cell cells' q = (if q \<in> set reached \<and> cell cells q = DESTRUCTIBLE then EMPTY else cell cells q)"
    unfolding cleared_def by blast+
  have per: "(cell cells c1 = INDESTRUCTIBLE \<longrightarrow> c1 \<notin> set affected \<and> c2 \<notin> set affected) \<and>
        (cell cells c1 = DESTRUCTIBLE \<longrightarrow>
           c1 \<in> set affected \<and> cell cells' c1 = EMPTY \<and> c2 \<notin> set affected) \<and>
        (cell cells c1 = EMPTY \<longrightarrow>
           c1 \<in> set affected \<and> cell cells' c1 = EMPTY \<and>
           (in_bounds c2 \<longrightarrow>
              (c2 \<in> set affected \<longleftrightarrow> cell cells c2 \<noteq> INDESTRUCTIBLE) \<and>
              (cell cells c2 = DESTRUCTIBLE \<longrightarrow> cell cells' c2 = EMPTY)))"
    if d: "d \<in> set directions" and r: "ray row col d = [c1, c2]" and ib: "in_bounds c1" for d c1 c2
  proof -
    have m1: "c1 \<in> set affected \<longleftrightarrow> c1 \<in> set (spec_walk cells [c1, c2])"
      using affected_ray [OF d, of c1 row col cells] r by (simp add: affected_def reached_def)
    have m2: "c2 \<in> set affected \<longleftrightarrow> c2 \<in> set (spec_walk cells [c1, c2])"
      using affected_ray [OF d, of c2 row col cells] r by (simp add: affected_def reached_def)
    have ne: "c1 \<noteq> c2"
      using rays_distinct [of row col] d r by (auto simp: directions_def)
    have r1: "c1 \<in> set reached \<longleftrightarrow> c1 \<in> set affected"
      using ray_off_centre [OF d, of row col] r by (auto simp: affected_def)
    have r2: "c2 \<in> set reached \<longleftrightarrow> c2 \<in> set affected"
      using ray_off_centre [OF d, of row col] r by (auto simp: affected_def)
    show ?thesis
      using ib ne cells_distinct after [OF ib] after [of c2]
      by (auto simp: m1 m2 r1 r2)
  qed
  show ?thesis
    using b wf' after per unfolding reached_def affected_def by blast
qed


lemma in_bounds_iff: "in_bounds (r, c) \<longleftrightarrow> 0 \<le> r \<and> r < 15 \<and> 0 \<le> c \<and> c < 20"
  by (simp add: in_bounds_def ROWS_val COLS_val)

lemma wf_walls: "wf_grid walls"
  by (simp add: walls_def wf_set_cell wf_open_grid)

lemma cell_walls:
  assumes "in_bounds q"
  shows "cell walls q =
     (if q = (2, 1) then INDESTRUCTIBLE else if q = (2, 3) then DESTRUCTIBLE else EMPTY)"
  using assms
  by (simp add: walls_def cell_set_cell wf_set_cell wf_open_grid cell_open_grid in_bounds_iff)

theorem blast_plus_shape_witness:
  "\<exists>cells'. blast walls 2 2 = Inr (cells', [(2, 2), (2, 3), (3, 2), (4, 2), (1, 2), (0, 2)]) \<and>
      cell cells' (2, 3) = EMPTY \<and> cell cells' (2, 1) = INDESTRUCTIBLE"
proof -
  have w: "concat (map (\<lambda>d. spec_walk walls (ray 2 2 d)) directions) =
      [(2, 3), (3, 2), (4, 2), (1, 2), (0, 2)]"
    using cells_distinct by (simp add: directions_def ray_def in_bounds_iff cell_walls)
  from blast_plus_shape [OF wf_walls, of 2 2] obtain cells' where
    b: "blast walls 2 2 = Inr (cells', (2, 2) # concat (map (\<lambda>d. spec_walk walls (ray 2 2 d)) directions))"
    and a: "\<forall>q. in_bounds q \<longrightarrow> cell cells' q =
        (if q \<in> set (concat (map (\<lambda>d. spec_walk walls (ray 2 2 d)) directions)) \<and>
            cell walls q = DESTRUCTIBLE then EMPTY else cell walls q)"
    by blast
  have "cell cells' (2, 3) = EMPTY" "cell cells' (2, 1) = INDESTRUCTIBLE"
    using a [rule_format, of "(2, 3)"] a [rule_format, of "(2, 1)"]
    by (simp_all add: w in_bounds_iff cell_walls)
  with b w show ?thesis by simp
qed

section \<open>The damage of an explosion, and eliminated agents\<close>

lemma damage_step:
  assumes "i < length (lives g)" "i < length (game_over g)"
  shows "damage aff ((int i, p) # rest) g =
     (if p \<in> set aff \<and> \<not> game_over g ! i then
        damage aff rest (g\<lparr>lives := (lives g)[i := lives g ! i - 1],
                           game_over := (game_over g)[i := game_over g ! i \<or> lives g ! i - 1 \<le> 0]\<rparr>)
      else damage aff rest g)"
proof -
  have l: "subscript (length (lives g)) (int i) = Some i"
    using assms by (simp add: subscript_def)
  have o: "subscript (length (game_over g)) (int i) = Some i"
    using assms by (simp add: subscript_def)
  have same: "(game_over g)[i := False] = game_over g" if "\<not> game_over g ! i"
    using that by (metis list_update_id)
  show ?thesis
    using assms same
    by (simp add: py_index_def py_store_def l o)
qed


lemma damage_loop:
  "length (lives g) = n \<Longrightarrow> length (game_over g) = n \<Longrightarrow> k + length ps = n \<Longrightarrow>
     \<exists>L G. damage aff (zip (map int [k ..< k + length ps]) ps) g = Inr (g\<lparr>lives := L, game_over := G\<rparr>) \<and>
        length L = n \<and> length G = n \<and>
        (\<forall>j<n. (L ! j, G ! j) =
           (if k \<le> j \<and> ps ! (j - k) \<in> set aff \<and> \<not> game_over g ! j
            then (lives g ! j - 1, lives g ! j - 1 \<le> 0)
            else (lives g ! j, game_over g ! j)))"
proof (induction ps arbitrary: k g)
  case Nil
  have "g\<lparr>lives := lives g, game_over := game_over g\<rparr> = g" by simp
  with Nil show ?case
    by (intro exI [of _ "lives g"] exI [of _ "game_over g"]) simp
next
  case (Cons p ps)
  have k: "k < length (lives g)" "k < length (game_over g)"
    using Cons.prems by simp_all
  have z: "zip (map int [k ..< k + length (p # ps)]) (p # ps) =
      (int k, p) # zip (map int [Suc k ..< Suc k + length ps]) ps"
  proof -
    have "[k ..< Suc (k + length ps)] = k # [Suc k ..< Suc (k + length ps)]"
      by (rule upt_conv_Cons) simp
    then show ?thesis by (simp del: upt_Suc)
  qed
  define g1 where "g1 = (if p \<in> set aff \<and> \<not> game_over g ! k
      then g\<lparr>lives := (lives g)[k := lives g ! k - 1],
             game_over := (game_over g)[k := game_over g ! k \<or> lives g ! k - 1 \<le> 0]\<rparr>
      else g)"
  have st: "damage aff ((int k, p) # zip (map int [Suc k ..< Suc k + length ps]) ps) g =
      damage aff (zip (map int [Suc k ..< Suc k + length ps]) ps) g1"
    unfolding g1_def damage_step [OF k] by simp
  have len1: "length (lives g1) = n" "length (game_over g1) = n" "Suc k + length ps = n"
    using Cons.prems by (simp_all add: g1_def)
  from Cons.IH [OF len1] obtain L G where
    d: "damage aff (zip (map int [Suc k ..< Suc k + length ps]) ps) g1 = Inr (g1\<lparr>lives := L, game_over := G\<rparr>)"
    and len: "length L = n" "length G = n"
    and pt: "\<forall>j<n. (L ! j, G ! j) =
           (if Suc k \<le> j \<and> ps ! (j - Suc k) \<in> set aff \<and> \<not> game_over g1 ! j
            then (lives g1 ! j - 1, lives g1 ! j - 1 \<le> 0)
            else (lives g1 ! j, game_over g1 ! j))"
    by blast
  have rec: "g1\<lparr>lives := L, game_over := G\<rparr> = g\<lparr>lives := L, game_over := G\<rparr>"
    by (simp add: g1_def)
  have pt': "(L ! j, G ! j) =
           (if k \<le> j \<and> (p # ps) ! (j - k) \<in> set aff \<and> \<not> game_over g ! j
            then (lives g ! j - 1, lives g ! j - 1 \<le> 0)
            else (lives g ! j, game_over g ! j))" if j: "j < n" for j
  proof (cases "j = k")
    case True
    with pt [rule_format, OF j] k show ?thesis by (simp add: g1_def)
  next
    case False
    then have o: "lives g1 ! j = lives g ! j" "game_over g1 ! j = game_over g ! j"
      by (simp_all add: g1_def)
    show ?thesis
    proof (cases "k < j")
      case True
      then have "(p # ps) ! (j - k) = ps ! (j - Suc k)" by (simp add: nth_Cons')
      with pt [rule_format, OF j] True o show ?thesis by simp
    next
      case False
      with \<open>j \<noteq> k\<close> pt [rule_format, OF j] o show ?thesis by simp
    qed
  qed
  show ?case
    unfolding z st d rec using len pt' by blast
qed


lemma enumerate_py_zip: "enumerate_py xs = zip (map int [0 ..< 0 + length xs]) xs"
  by (simp add: enumerate_py_def)

lemma move_to_frame:
  "move_to g i p = Inr (r, g') \<Longrightarrow>
     \<exists>ps. g' = g\<lparr>agent_positions := ps\<rparr> \<and> length ps = length (agent_positions g)"
  by (auto simp: move_to_def py_store_def split: option.splits)

lemma perform_action_frame:
  assumes "perform_action g i a = Inr (r, g')"
  shows "g' = g \<or>
         (\<exists>ps. g' = g\<lparr>agent_positions := ps\<rparr> \<and> length ps = length (agent_positions g)) \<or>
         (\<exists>b. g' = g\<lparr>bombs := bombs g @ [b]\<rparr>)"
  using assms unfolding perform_action_def py_bind_def
  by (auto split: sum.splits if_splits prod.splits dest!: move_to_frame)

lemma perform_action_flags:
  assumes "perform_action g i a = Inr (r, g')"
  shows "game_over g' = game_over g" "lives g' = lives g" "grid g' = grid g"
    "agents g' = agents g" "num_agents g' = num_agents g"
    "length (agent_positions g') = length (agent_positions g)"
  using perform_action_frame [OF assms] by auto

lemma agent_turn_eliminated:
  "py_index (game_over s) i = Inr True \<Longrightarrow> agent_turn (s, env) i = Inr (s, env)"
  by (simp add: agent_turn_def)

lemma agent_turn_flags:
  assumes "agent_turn w i = Inr w'"
  shows "game_over (fst w') = game_over (fst w)"
  using assms unfolding agent_turn_def Let_def py_bind_def
  by (auto split: sum.splits if_splits prod.splits dest: perform_action_flags(1))

lemma agents_loop_flags:
  "agents_loop is w = Inr w' \<Longrightarrow> game_over (fst w') = game_over (fst w)"
proof (induction "is" arbitrary: w)
  case Nil
  then show ?case by simp
next
  case (Cons i rest)
  from Cons.prems obtain w1 where t: "agent_turn w i = Inr w1" and l: "agents_loop rest w1 = Inr w'"
    by (auto simp: py_bind_def split: sum.splits)
  from Cons.IH [OF l] agent_turn_flags [OF t] show ?case by simp
qed


lemma explode_bomb_result:
  assumes wf: "wf_grid (grid g)"
    and ll: "length (lives g) = length (agent_positions g)"
    and lo: "length (game_over g) = length (agent_positions g)"
  shows "\<exists>cells' affected L G.
      blast (grid g) (bomb_row b) (bomb_col b) = Inr (cells', affected) \<and>
      explode_bomb g b = Inr (g\<lparr>grid := cells', lives := L, game_over := G\<rparr>) \<and>
      length L = length (agent_positions g) \<and> length G = length (agent_positions g) \<and>
      (\<forall>i < length (agent_positions g).
         if struck affected g i
         then L ! i = lives g ! i - 1 \<and> (G ! i \<longleftrightarrow> lives g ! i - 1 \<le> 0)
         else L ! i = lives g ! i \<and> G ! i = game_over g ! i)"
proof -
  from blast_walk [OF wf, of "bomb_row b" "bomb_col b"] obtain cells' affected where
    bl: "blast (grid g) (bomb_row b) (bomb_col b) = Inr (cells', affected)" by blast
  let ?g = "g\<lparr>grid := cells'\<rparr>"
  let ?n = "length (agent_positions g)"
  have "length (lives ?g) = ?n" "length (game_over ?g) = ?n" "0 + length (agent_positions g) = ?n"
    using ll lo by simp_all
  from damage_loop [OF this, of affected] obtain L G where
    d: "damage affected (enumerate_py (agent_positions g)) ?g = Inr (?g\<lparr>lives := L, game_over := G\<rparr>)"
    and len: "length L = ?n" "length G = ?n"
    and pt: "\<forall>j < ?n. (L ! j, G ! j) =
           (if 0 \<le> j \<and> agent_positions g ! (j - 0) \<in> set affected \<and> \<not> game_over ?g ! j
            then (lives ?g ! j - 1, lives ?g ! j - 1 \<le> 0)
            else (lives ?g ! j, game_over ?g ! j))"
    unfolding enumerate_py_zip by blast
  have ex: "explode_bomb g b = Inr (g\<lparr>grid := cells', lives := L, game_over := G\<rparr>)"
    by (simp add: explode_bomb_def bl d)
  have each: "\<forall>i < ?n.
         if struck affected g i
         then L ! i = lives g ! i - 1 \<and> (G ! i \<longleftrightarrow> lives g ! i - 1 \<le> 0)
         else L ! i = lives g ! i \<and> G ! i = game_over g ! i"
  proof (intro allI impI)
    fix i assume "i < ?n"
    with pt have "(L ! i, G ! i) =
           (if agent_positions g ! i \<in> set affected \<and> \<not> game_over g ! i
            then (lives g ! i - 1, lives g ! i - 1 \<le> 0)
            else (lives g ! i, game_over g ! i))" by simp
    then show "if struck affected g i
         then L ! i = lives g ! i - 1 \<and> (G ! i \<longleftrightarrow> lives g ! i - 1 \<le> 0)
         else L ! i = lives g ! i \<and> G ! i = game_over g ! i"
      by (simp add: struck_def split: if_splits)
  qed
  show ?thesis
    using bl ex len each by blast
qed

text \<open>
  C5. In a state with a well-formed board and one life count and one flag per agent,
  explode\_bomb succeeds; with \<open>affected\<close> the list the blast computes, every agent that
  stands on an affected cell and is not eliminated has one life less, and is flagged
  eliminated exactly when that leaves it no life; every other agent keeps its lives and
  its flag (so an eliminated agent stays eliminated). In the loop over the agents, the
  turn of an agent whose flag is set returns the game and the environment as they are:
  no draw is taken, no action is performed and no table is updated; and the loop never
  changes a flag.
\<close>

theorem explosion_damage:
  assumes wf: "wf_grid (grid g)"
    and ll: "length (lives g) = length (agent_positions g)"
    and lo: "length (game_over g) = length (agent_positions g)"
  shows "\<exists>cells' affected L G.
      blast (grid g) (bomb_row b) (bomb_col b) = Inr (cells', affected) \<and>
      explode_bomb g b = Inr (g\<lparr>grid := cells', lives := L, game_over := G\<rparr>) \<and>
      length L = length (agent_positions g) \<and> length G = length (agent_positions g) \<and>
      (\<forall>i < length (agent_positions g).
         if struck affected g i
         then L ! i = lives g ! i - 1 \<and> (G ! i \<longleftrightarrow> lives g ! i - 1 \<le> 0)
         else L ! i = lives g ! i \<and> G ! i = game_over g ! i) \<and>
      (\<forall>s env i. py_index (game_over s) i = Inr True \<longrightarrow> agent_turn (s, env) i = Inr (s, env)) \<and>
      (\<forall>s env order w'. agents_loop order (s, env) = Inr w' \<longrightarrow> game_over (fst w') = game_over s)"
proof -
  have turn: "\<forall>s env i. py_index (game_over s) i = Inr True \<longrightarrow> agent_turn (s, env) i = Inr (s, env)"
    by (simp add: agent_turn_eliminated)
  have loop: "\<forall>s env order w'. agents_loop order (s, env) = Inr w' \<longrightarrow> game_over (fst w') = game_over s"
    using agents_loop_flags by fastforce
  from explode_bomb_result [OF wf ll lo, of b] turn loop show ?thesis by blast
qed

lemma blast_open_grid_2_3:
  "blast open_grid 2 3 = Inr (open_grid, [(2, 3), (2, 4), (2, 5), (2, 2), (2, 1), (3, 3), (4, 3), (1, 3), (0, 3)])"
  using cells_distinct
  by (simp add: blast_def scan_step [OF wf_open_grid] cell_open_grid in_bounds_iff del: scan.simps(2))

lemma singleton_list: "length xs = Suc 0 \<Longrightarrow> xs = [xs ! 0]"
  by (cases xs) simp_all

theorem explosion_damage_witness:
  "explode_bomb (arena\<lparr>lives := [1]\<rparr>) \<lparr>bomb_row = 2, bomb_col = 3, bomb_timer = 0, bomb_owner = 0\<rparr>
     = Inr (arena\<lparr>lives := [0], game_over := [True]\<rparr>) \<and>
   agent_turn (arena\<lparr>lives := [0], game_over := [True]\<rparr>, quiet_env) 0
     = Inr (arena\<lparr>lives := [0], game_over := [True]\<rparr>, quiet_env)"
proof -
  let ?g = "arena\<lparr>lives := [1]\<rparr>"
  let ?b = "\<lparr>bomb_row = 2, bomb_col = 3, bomb_timer = 0, bomb_owner = 0\<rparr>"
  have wf: "wf_grid (grid ?g)" by (simp add: arena_def wf_open_grid)
  have l: "length (lives ?g) = length (agent_positions ?g)"
    "length (game_over ?g) = length (agent_positions ?g)" by (simp_all add: arena_def)
  from explosion_damage [OF wf l, of ?b] obtain cells' affected L G where
    bl: "blast (grid ?g) (bomb_row ?b) (bomb_col ?b) = Inr (cells', affected)"
    and ex: "explode_bomb ?g ?b = Inr (?g\<lparr>grid := cells', lives := L, game_over := G\<rparr>)"
    and len: "length L = length (agent_positions ?g)" "length G = length (agent_positions ?g)"
    and each: "\<forall>i < length (agent_positions ?g).
         if struck affected ?g i
         then L ! i = lives ?g ! i - 1 \<and> (G ! i \<longleftrightarrow> lives ?g ! i - 1 \<le> 0)
         else L ! i = lives ?g ! i \<and> G ! i = game_over ?g ! i"
    and turn: "\<forall>s env i. py_index (game_over s) i = Inr True \<longrightarrow> agent_turn (s, env) i = Inr (s, env)"
    by blast
  from bl have c: "cells' = open_grid"
    and a: "affected = [(2, 3), (2, 4), (2, 5), (2, 2), (2, 1), (3, 3), (4, 3), (1, 3), (0, 3)]"
    by (simp_all add: arena_def blast_open_grid_2_3)
  from each have "L ! 0 = 0 \<and> G ! 0"
    by (simp add: struck_def a arena_def)
  with len singleton_list [of L] singleton_list [of G] have "L = [0]" "G = [True]"
    by (simp_all add: arena_def)
  with ex c have e: "explode_bomb ?g ?b = Inr (arena\<lparr>lives := [0], game_over := [True]\<rparr>)"
    by (simp add: arena_def)
  have "py_index (game_over (arena\<lparr>lives := [0], game_over := [True]\<rparr>)) 0 = Inr True"
    by (simp add: py_index_def subscript_def)
  with turn have "agent_turn (arena\<lparr>lives := [0], game_over := [True]\<rparr>, quiet_env) 0
     = Inr (arena\<lparr>lives := [0], game_over := [True]\<rparr>, quiet_env)" by blast
  with e show ?thesis by simp
qed

section \<open>Bombs: placement, countdown, removal\<close>

lemma place_bomb:
  assumes "py_index (game_over g) i = Inr False" "py_index (agent_positions g) i = Inr (r, c)"
  shows "perform_action g i 4 = Inr (0, g\<lparr>bombs := bombs g @
           [\<lparr>bomb_row = r, bomb_col = c, bomb_timer = 3, bomb_owner = i\<rparr>]\<rparr>)"
  using assms by (simp add: perform_action_def)

lemma damage_bombs:
  "damage aff todo (g\<lparr>bombs := bs\<rparr>) = py_bind (damage aff todo g) (set_bombs bs)"
proof (induction todo arbitrary: g)
  case Nil
  show ?case by (simp add: set_bombs_def)
next
  case (Cons x rest)
  obtain i p where x: "x = (i, p)" by (cases x)
  have reads: "game_over (g\<lparr>bombs := bs\<rparr>) = game_over g" "lives (g\<lparr>bombs := bs\<rparr>) = lives g"
    by simp_all
  have sw1: "g\<lparr>bombs := bs, lives := ls\<rparr> = (g\<lparr>lives := ls\<rparr>)\<lparr>bombs := bs\<rparr>" for ls
    by simp
  have sw2: "g\<lparr>lives := ls, bombs := bs, game_over := fl\<rparr> =
      (g\<lparr>lives := ls, game_over := fl\<rparr>)\<lparr>bombs := bs\<rparr>" for ls fl
    by simp
  show ?case
    unfolding x damage.simps reads sw1 sw2 Cons.IH
    by (simp add: py_bind_def split: sum.splits)
qed

lemma explode_bomb_bombs:
  "explode_bomb (g\<lparr>bombs := bs\<rparr>) b = py_bind (explode_bomb g b) (set_bombs bs)"
proof (cases "blast (grid g) (bomb_row b) (bomb_col b)")
  case (Inl e)
  then show ?thesis by (simp add: explode_bomb_def)
next
  case (Inr st)
  obtain cells aff where st: "st = (cells, aff)" by (cases st)
  have sw: "g\<lparr>bombs := bs, grid := cells\<rparr> = (g\<lparr>grid := cells\<rparr>)\<lparr>bombs := bs\<rparr>"
    by simp
  show ?thesis
    by (simp add: explode_bomb_def Inr st sw damage_bombs)
qed


lemma damage_frame:
  "damage aff todo g = Inr g' \<Longrightarrow> \<exists>L G. g' = g\<lparr>lives := L, game_over := G\<rparr>"
proof (induction todo arbitrary: g)
  case Nil
  then have "g' = g\<lparr>lives := lives g, game_over := game_over g\<rparr>" by simp
  then show ?case by blast
next
  case (Cons x rest)
  obtain i p where x: "x = (i, p)" by (cases x)
  from Cons.prems consider "damage aff rest g = Inr g'"
    | ls where "damage aff rest (g\<lparr>lives := ls\<rparr>) = Inr g'"
    | ls fl where "damage aff rest (g\<lparr>lives := ls, game_over := fl\<rparr>) = Inr g'"
    unfolding x damage.simps py_bind_def by (auto split: sum.splits if_splits)
  then show ?case
  proof cases
    case 1
    from Cons.IH [OF this] show ?thesis .
  next
    case 2
    from Cons.IH [OF this] obtain L G where "g' = g\<lparr>lives := ls, lives := L, game_over := G\<rparr>"
      by blast
    then have "g' = g\<lparr>lives := L, game_over := G\<rparr>" by simp
    then show ?thesis by blast
  next
    case 3
    from Cons.IH [OF this] obtain L G where
      "g' = g\<lparr>lives := ls, game_over := fl, lives := L, game_over := G\<rparr>" by blast
    then have "g' = g\<lparr>lives := L, game_over := G\<rparr>" by simp
    then show ?thesis by blast
  qed
qed

lemma explode_bomb_frame:
  assumes "explode_bomb g b = Inr g'"
  shows "\<exists>cells L G. g' = g\<lparr>grid := cells, lives := L, game_over := G\<rparr>"
proof -
  from assms obtain cells aff where
    "damage aff (enumerate_py (agent_positions g)) (g\<lparr>grid := cells\<rparr>) = Inr g'"
    unfolding explode_bomb_def py_bind_def by (auto split: sum.splits prod.splits)
  from damage_frame [OF this] show ?thesis by auto
qed

lemma explode_bomb_keeps:
  assumes "explode_bomb g b = Inr g'"
  shows "update_interval g' = update_interval g" "bombs g' = bombs g"
    "agent_positions g' = agent_positions g" "agents g' = agents g"
    "num_agents g' = num_agents g" "current_episode g' = current_episode g"
  using explode_bomb_frame [OF assms] by auto

lemma explode_all_bombs:
  "explode_all xs (g\<lparr>bombs := bs\<rparr>) = py_bind (explode_all xs g) (set_bombs bs)"
proof (induction xs arbitrary: g)
  case Nil
  show ?case by (simp add: set_bombs_def)
next
  case (Cons b xs)
  show ?case
    by (cases "explode_bomb g b") (simp_all add: explode_bomb_bombs set_bombs_def Cons)
qed

lemma set_bombs_fun: "set_bombs bs = (\<lambda>g. Inr (g\<lparr>bombs := bs\<rparr>))"
  by (simp add: set_bombs_def fun_eq_iff)

lemma set_bombs_twice:
  "py_bind (py_bind m (set_bombs bs)) (set_bombs cs) = py_bind m (set_bombs cs)"
  by (cases m) (simp_all add: set_bombs_def)

lemma explode_all_interval:
  "explode_all xs g = Inr g' \<Longrightarrow> update_interval g' = update_interval g"
proof (induction xs arbitrary: g)
  case Nil
  then show ?case by simp
next
  case (Cons b xs)
  from Cons.prems obtain g1 where e: "explode_bomb g b = Inr g1" and r: "explode_all xs g1 = Inr g'"
    by (auto simp: py_bind_def split: sum.splits)
  from Cons.IH [OF r] explode_bomb_keeps(1) [OF e] show ?case by simp
qed

lemma bomb_loop_eq:
  "bombs g = kept @ todo \<Longrightarrow> \<forall>b \<in> set kept. \<not> bomb_timer b \<le> 0 \<Longrightarrow>
   bomb_loop (length todo) (length kept) g =
     py_bind (explode_all [b \<leftarrow> map (aged (update_interval g)) todo. bomb_timer b \<le> 0] g)
       (set_bombs (kept @ [b \<leftarrow> map (aged (update_interval g)) todo. \<not> bomb_timer b \<le> 0]))"
proof (induction todo arbitrary: kept g)
  case Nil
  then show ?case by (simp add: set_bombs_def)
next
  case (Cons b rest)
  let ?dt = "update_interval g"
  let ?b = "aged ?dt b"
  let ?g1 = "g\<lparr>bombs := kept @ ?b # rest\<rparr>"
  have at: "bombs g ! length kept = b" using Cons.prems(1) by simp
  have upd: "(bombs g)[length kept := ?b] = kept @ ?b # rest" using Cons.prems(1) by simp
  have step: "bomb_loop (Suc (length rest)) (length kept) g =
      (if bomb_timer ?b \<le> 0 then
         py_bind (explode_bomb ?g1 ?b) (\<lambda>g2. bomb_loop (length rest) (length kept)
            (g2\<lparr>bombs := remove1 ?b (bombs g2)\<rparr>))
       else bomb_loop (length rest) (Suc (length kept)) ?g1)"
    by (simp add: Let_def Cons.prems(1) aged_def)
  show ?case
  proof (cases "bomb_timer ?b \<le> 0")
    case True
    with Cons.prems(2) have "?b \<notin> set kept" by auto
    then have rm: "remove1 ?b (kept @ ?b # rest) = kept @ rest"
      by (simp add: remove1_append)
    show ?thesis
    proof (cases "explode_bomb g ?b")
      case (Inl e)
      with True show ?thesis by (simp add: step explode_bomb_bombs del: bomb_loop.simps)
    next
      case (Inr g2)
      have k: "update_interval g2 = ?dt" "bombs g2 = bombs g"
        using explode_bomb_keeps [OF Inr] by simp_all
      have "bombs (g2\<lparr>bombs := kept @ rest\<rparr>) = kept @ rest" by simp
      from Cons.IH [OF this Cons.prems(2)] k
      have ih: "bomb_loop (length rest) (length kept) (g2\<lparr>bombs := kept @ rest\<rparr>) =
          py_bind (explode_all [b \<leftarrow> map (aged ?dt) rest. bomb_timer b \<le> 0] g2)
            (set_bombs (kept @ [b \<leftarrow> map (aged ?dt) rest. \<not> bomb_timer b \<le> 0]))"
        by (simp add: explode_all_bombs set_bombs_twice)
      show ?thesis
        using True by (simp add: step explode_bomb_bombs Inr set_bombs_fun rm ih k del: bomb_loop.simps)
    qed
  next
    case False
    have "bombs ?g1 = (kept @ [?b]) @ rest" by simp
    moreover have "\<forall>x \<in> set (kept @ [?b]). \<not> bomb_timer x \<le> 0"
      using Cons.prems(2) False by auto
    ultimately have "bomb_loop (length rest) (length (kept @ [?b])) ?g1 =
          py_bind (explode_all [b \<leftarrow> map (aged (update_interval ?g1)) rest. bomb_timer b \<le> 0] ?g1)
            (set_bombs ((kept @ [?b]) @ [b \<leftarrow> map (aged (update_interval ?g1)) rest. \<not> bomb_timer b \<le> 0]))"
      by (rule Cons.IH)
    then have ih: "bomb_loop (length rest) (Suc (length kept)) ?g1 =
          py_bind (explode_all [b \<leftarrow> map (aged ?dt) rest. bomb_timer b \<le> 0] g)
            (set_bombs (kept @ ?b # [b \<leftarrow> map (aged ?dt) rest. \<not> bomb_timer b \<le> 0]))"
      by (simp add: explode_all_bombs set_bombs_twice)
    show ?thesis
      using False by (simp add: step ih del: bomb_loop.simps)
  qed
qed

lemma tick_bombs_eq:
  "tick_bombs g =
     py_bind (explode_all [b \<leftarrow> map (aged (update_interval g)) (bombs g). bomb_timer b \<le> 0] g)
       (set_bombs [b \<leftarrow> map (aged (update_interval g)) (bombs g). \<not> bomb_timer b \<le> 0])"
  using bomb_loop_eq [of g "[]" "bombs g"] by (simp add: tick_bombs_def)


lemma explode_bomb_wf:
  assumes "wf_game g"
  shows "\<exists>g'. explode_bomb g b = Inr g' \<and> wf_game g'"
proof -
  from assms have wf: "wf_grid (grid g)" and ll: "length (lives g) = length (agent_positions g)"
    and lo: "length (game_over g) = length (agent_positions g)"
    by (simp_all add: wf_game_def)
  from explode_bomb_result [OF wf ll lo, of b] obtain cells' affected L G where
    bl: "blast (grid g) (bomb_row b) (bomb_col b) = Inr (cells', affected)"
    and ex: "explode_bomb g b = Inr (g\<lparr>grid := cells', lives := L, game_over := G\<rparr>)"
    and len: "length L = length (agent_positions g)" "length G = length (agent_positions g)"
    by blast
  from blast_walk [OF wf, of "bomb_row b" "bomb_col b"] bl have "wf_grid cells'"
    by (auto simp: cleared_def)
  with ex len show ?thesis by (simp add: wf_game_def)
qed

lemma explode_all_wf:
  "wf_game g \<Longrightarrow> \<exists>g'. explode_all xs g = Inr g' \<and> wf_game g'"
proof (induction xs arbitrary: g)
  case Nil
  then show ?case by simp
next
  case (Cons b xs)
  from explode_bomb_wf [OF Cons.prems, of b] obtain g1 where
    "explode_bomb g b = Inr g1" "wf_game g1" by blast
  with Cons.IH [of g1] show ?case by simp
qed

lemma tick_bombs_wf:
  assumes "wf_game g"
  shows "\<exists>g'. tick_bombs g = Inr g' \<and> wf_game g' \<and> update_interval g' = update_interval g \<and>
           bombs g' = [b \<leftarrow> map (aged (update_interval g)) (bombs g). \<not> bomb_timer b \<le> 0]"
proof -
  from explode_all_wf [OF assms] obtain g1 where
    e: "explode_all [b \<leftarrow> map (aged (update_interval g)) (bombs g). bomb_timer b \<le> 0] g = Inr g1"
    and w: "wf_game g1" by blast
  from explode_all_interval [OF e] w show ?thesis
    by (simp add: tick_bombs_eq e set_bombs_def wf_game_def)
qed

lemma aged_twice: "aged a (aged b x) = aged (b + a) x"
  by (simp add: aged_def)

lemma filter_aged:
  fixes dt s :: real
  assumes "0 \<le> dt"
  shows "[b \<leftarrow> map (aged dt) (map (aged s) [b \<leftarrow> xs. z \<or> 0 < bomb_timer b - s]). \<not> bomb_timer b \<le> 0] =
         map (aged (s + dt)) [b \<leftarrow> xs. 0 < bomb_timer b - (s + dt)]"
proof (induction xs)
  case Nil
  show ?case by simp
next
  case (Cons x xs)
  have "aged dt (aged s x) = aged (s + dt) x" by (rule aged_twice)
  moreover have "bomb_timer (aged (s + dt) x) = bomb_timer x - (s + dt)" by (simp add: aged_def)
  moreover have "0 < bomb_timer x - (s + dt) \<Longrightarrow> 0 < bomb_timer x - s" using assms by linarith
  ultimately show ?case
    using Cons by (cases "0 < bomb_timer x - (s + dt)") auto
qed

lemma ticks_wf:
  assumes "0 \<le> update_interval g"
  shows "wf_game g \<Longrightarrow>
         \<exists>g'. ticks n g = Inr g' \<and> wf_game g' \<and> update_interval g' = update_interval g \<and>
           bombs g' = map (aged (real n * update_interval g))
                        [b \<leftarrow> bombs g. n = 0 \<or> 0 < bomb_timer b - real n * update_interval g]"
proof (induction n)
  case 0
  have "map (aged 0) xs = xs" for xs :: "bomb list"
    by (induction xs) (simp_all add: aged_def)
  with 0 show ?case by simp
next
  case (Suc n)
  let ?dt = "update_interval g"
  from Suc obtain g1 where t: "ticks n g = Inr g1" and w: "wf_game g1"
    and i: "update_interval g1 = ?dt"
    and b: "bombs g1 = map (aged (real n * ?dt))
              [b \<leftarrow> bombs g. n = 0 \<or> 0 < bomb_timer b - real n * ?dt]"
    by blast
  from tick_bombs_wf [OF w] i obtain g2 where t2: "tick_bombs g1 = Inr g2" and w2: "wf_game g2"
    and i2: "update_interval g2 = ?dt"
    and b2: "bombs g2 = [b \<leftarrow> map (aged ?dt) (bombs g1). \<not> bomb_timer b \<le> 0]"
    by auto
  have e: "real (Suc n) * ?dt = real n * ?dt + ?dt" by (simp add: algebra_simps)
  have "bombs g2 = map (aged (real (Suc n) * ?dt))
        [b \<leftarrow> bombs g. Suc n = 0 \<or> 0 < bomb_timer b - real (Suc n) * ?dt]"
    unfolding b2 b e filter_aged [OF assms] by simp
  with t t2 w2 i2 show ?case by simp
qed


lemma tick_bombs_kept:
  assumes "tick_bombs g = Inr g'"
  shows "bombs g' = [b \<leftarrow> map (aged (update_interval g)) (bombs g). \<not> bomb_timer b \<le> 0]"
  using assms unfolding tick_bombs_eq set_bombs_fun py_bind_def
  by (auto split: sum.splits)

lemma perform_action_bombs:
  assumes "perform_action g i a = Inr (r, g')"
  shows "\<exists>placed. bombs g' = bombs g @ placed \<and> (\<forall>b \<in> set placed. bomb_timer b = 3)"
proof -
  have "bombs g' = bombs g @ [] \<or> (\<exists>b. bombs g' = bombs g @ [b] \<and> bomb_timer b = 3)"
    using assms unfolding perform_action_def py_bind_def
    by (auto split: sum.splits if_splits prod.splits dest!: move_to_frame)
  then show ?thesis by (metis empty_iff empty_set set_ConsD)
qed

lemma agent_turn_bombs:
  assumes "agent_turn w i = Inr w'"
  shows "\<exists>placed. bombs (fst w') = bombs (fst w) @ placed \<and> (\<forall>b \<in> set placed. bomb_timer b = 3)"
proof -
  have "w' = w \<or> (\<exists>a r g1 ags env1. perform_action (fst w) i a = Inr (r, g1) \<and>
          w' = (g1\<lparr>agents := ags\<rparr>, env1))"
    using assms unfolding agent_turn_def Let_def py_bind_def
    by (auto split: sum.splits if_splits prod.splits) blast
  then show ?thesis
  proof
    assume "w' = w"
    then have "bombs (fst w') = bombs (fst w) @ []" by simp
    then show ?thesis by (metis empty_iff empty_set)
  next
    assume "\<exists>a r g1 ags env1. perform_action (fst w) i a = Inr (r, g1) \<and>
          w' = (g1\<lparr>agents := ags\<rparr>, env1)"
    then obtain a r g1 ags env1 where p: "perform_action (fst w) i a = Inr (r, g1)"
      and w': "w' = (g1\<lparr>agents := ags\<rparr>, env1)" by blast
    from perform_action_bombs [OF p] w' show ?thesis by simp
  qed
qed

lemma agents_loop_bombs:
  "agents_loop is w = Inr w' \<Longrightarrow>
     \<exists>placed. bombs (fst w') = bombs (fst w) @ placed \<and> (\<forall>b \<in> set placed. bomb_timer b = 3)"
proof (induction "is" arbitrary: w)
  case Nil
  then have "bombs (fst w') = bombs (fst w) @ []" by simp
  then show ?case by (metis empty_iff empty_set)
next
  case (Cons i rest)
  from Cons.prems obtain w1 where t: "agent_turn w i = Inr w1" and l: "agents_loop rest w1 = Inr w'"
    by (auto simp: py_bind_def split: sum.splits)
  from agent_turn_bombs [OF t] obtain p1 where
    p1: "bombs (fst w1) = bombs (fst w) @ p1" "\<forall>b \<in> set p1. bomb_timer b = 3" by blast
  from Cons.IH [OF l] obtain p2 where
    p2: "bombs (fst w') = bombs (fst w1) @ p2" "\<forall>b \<in> set p2. bomb_timer b = 3" by blast
  from p1 p2 have "bombs (fst w') = bombs (fst w) @ (p1 @ p2)" "\<forall>b \<in> set (p1 @ p2). bomb_timer b = 3"
    by auto
  then show ?case by blast
qed

lemma setup_game_bombs: "bombs (fst (setup_game g env)) = []"
  by (simp add: setup_game_def split: prod.splits)

lemma on_update_bombs:
  assumes due: "\<not> time_accumulator g + delta_time < update_interval g"
    and run: "on_update (g, env) delta_time = Inr w'"
  shows "bombs (fst w') = [] \<or>
         (\<exists>placed. bombs (fst w') =
              [b \<leftarrow> map (aged (update_interval g)) (bombs g). \<not> bomb_timer b \<le> 0] @ placed \<and>
            (\<forall>b \<in> set placed. bomb_timer b = 3))"
proof -
  let ?g0 = "g\<lparr>time_accumulator := 0\<rparr>"
  from due run obtain g1 w2 where t: "tick_bombs ?g0 = Inr g1"
    and l: "agents_loop (range_py (num_agents g1)) (g1, env) = Inr w2"
    and e: "w' = end_of_tick w2"
    unfolding on_update_def Let_def py_bind_def by (auto split: sum.splits)
  from tick_bombs_kept [OF t] have k: "bombs g1 =
      [b \<leftarrow> map (aged (update_interval g)) (bombs g). \<not> bomb_timer b \<le> 0]" by simp
  from agents_loop_bombs [OF l] k obtain placed where
    p: "bombs (fst w2) = [b \<leftarrow> map (aged (update_interval g)) (bombs g). \<not> bomb_timer b \<le> 0] @ placed"
      "\<forall>b \<in> set placed. bomb_timer b = 3" by auto
  show ?thesis
  proof (cases "list_all (\<lambda>x. x) (game_over (fst w2))")
    case True
    with e have "bombs (fst w') = []" by (simp add: end_of_tick_def Let_def setup_game_bombs)
    then show ?thesis by simp
  next
    case False
    with e have "fst w' = fst w2" by (simp add: end_of_tick_def Let_def)
    with p show ?thesis by auto
  qed
qed


text \<open>
  C4. In a well-formed state: (1) for a live agent the action 4 returns the reward 0 and
  appends one bomb with fuse 3 at the agent's cell, whatever bombs there are already;
  (2) the countdown of a tick explodes, in list order, exactly the bombs whose fuse less
  the update interval is at most 0, and leaves the others in the list with the reduced
  fuse; (3) it succeeds; (4) a whole tick of on\_update that is due and returns leaves
  either no bomb (the episode was reset) or the bombs kept by the countdown followed by
  bombs placed in this tick, each with fuse 3, so that no bomb outlives the tick in which
  its fuse reaches 0; (5) after \<open>n\<close> countdowns the list holds the bombs whose fuse exceeds
  \<open>n\<close> intervals, each reduced by \<open>n\<close> intervals; (6) with interval 0.5 a single fresh bomb is
  in the list with fuse \<open>3 - n / 2\<close> after \<open>n < 6\<close> countdowns and gone after the sixth.
\<close>

theorem bomb_lifecycle:
  assumes wf: "wf_game g"
  shows "(\<forall>i r c. py_index (game_over g) i = Inr False \<and> py_index (agent_positions g) i = Inr (r, c) \<longrightarrow>
            perform_action g i 4 = Inr (0, g\<lparr>bombs := bombs g @
                [\<lparr>bomb_row = r, bomb_col = c, bomb_timer = 3, bomb_owner = i\<rparr>]\<rparr>)) \<and>
         tick_bombs g =
           py_bind (explode_all [b \<leftarrow> map (aged (update_interval g)) (bombs g). bomb_timer b \<le> 0] g)
             (\<lambda>g'. Inr (g'\<lparr>bombs := [b \<leftarrow> map (aged (update_interval g)) (bombs g). \<not> bomb_timer b \<le> 0]\<rparr>)) \<and>
         (\<exists>g'. tick_bombs g = Inr g' \<and>
            bombs g' = [b \<leftarrow> map (aged (update_interval g)) (bombs g). \<not> bomb_timer b \<le> 0]) \<and>
         (\<forall>env delta_time w'. \<not> time_accumulator g + delta_time < update_interval g \<and>
              on_update (g, env) delta_time = Inr w' \<longrightarrow>
            bombs (fst w') = [] \<or>
            (\<exists>placed. bombs (fst w') =
                [b \<leftarrow> map (aged (update_interval g)) (bombs g). \<not> bomb_timer b \<le> 0] @ placed \<and>
              (\<forall>b \<in> set placed. bomb_timer b = 3))) \<and>
         (0 \<le> update_interval g \<longrightarrow>
            (\<forall>n. \<exists>g'. ticks n g = Inr g' \<and>
               bombs g' = map (aged (real n * update_interval g))
                            [b \<leftarrow> bombs g. n = 0 \<or> 0 < bomb_timer b - real n * update_interval g])) \<and>
         (\<forall>b. update_interval g = 0.5 \<and> bombs g = [b] \<and> bomb_timer b = 3 \<longrightarrow>
            (\<forall>n. \<exists>g'. ticks n g = Inr g' \<and>
               bombs g' = (if n < 6 then [b\<lparr>bomb_timer := 3 - real n * 0.5\<rparr>] else [])))"
proof -
  have place: "\<forall>i r c. py_index (game_over g) i = Inr False \<and> py_index (agent_positions g) i = Inr (r, c) \<longrightarrow>
            perform_action g i 4 = Inr (0, g\<lparr>bombs := bombs g @
                [\<lparr>bomb_row = r, bomb_col = c, bomb_timer = 3, bomb_owner = i\<rparr>]\<rparr>)"
    by (simp add: place_bomb)
  have eq: "tick_bombs g =
           py_bind (explode_all [b \<leftarrow> map (aged (update_interval g)) (bombs g). bomb_timer b \<le> 0] g)
             (\<lambda>g'. Inr (g'\<lparr>bombs := [b \<leftarrow> map (aged (update_interval g)) (bombs g). \<not> bomb_timer b \<le> 0]\<rparr>))"
    using tick_bombs_eq [of g] by (simp add: set_bombs_fun)
  have tot: "\<exists>g'. tick_bombs g = Inr g' \<and>
            bombs g' = [b \<leftarrow> map (aged (update_interval g)) (bombs g). \<not> bomb_timer b \<le> 0]"
    using tick_bombs_wf [OF wf] by blast
  have upd: "\<forall>env delta_time w'. \<not> time_accumulator g + delta_time < update_interval g \<and>
              on_update (g, env) delta_time = Inr w' \<longrightarrow>
            bombs (fst w') = [] \<or>
            (\<exists>placed. bombs (fst w') =
                [b \<leftarrow> map (aged (update_interval g)) (bombs g). \<not> bomb_timer b \<le> 0] @ placed \<and>
              (\<forall>b \<in> set placed. bomb_timer b = 3))"
    using on_update_bombs by blast
  have many: "0 \<le> update_interval g \<longrightarrow>
            (\<forall>n. \<exists>g'. ticks n g = Inr g' \<and>
               bombs g' = map (aged (real n * update_interval g))
                            [b \<leftarrow> bombs g. n = 0 \<or> 0 < bomb_timer b - real n * update_interval g])"
    using ticks_wf [OF _ wf] by blast
  have six: "\<exists>g'. ticks n g = Inr g' \<and>
               bombs g' = (if n < 6 then [b\<lparr>bomb_timer := 3 - real n * 0.5\<rparr>] else [])"
    if h: "update_interval g = 0.5" "bombs g = [b]" "bomb_timer b = 3" for b n
  proof -
    from h have "0 \<le> update_interval g" by simp
    from ticks_wf [OF this wf, of n] obtain g' where t: "ticks n g = Inr g'"
      and bs: "bombs g' = map (aged (real n * update_interval g))
                            [b \<leftarrow> bombs g. n = 0 \<or> 0 < bomb_timer b - real n * update_interval g]"
      by blast
    have "(n = 0 \<or> 0 < 3 - real n * 0.5) \<longleftrightarrow> n < 6" by auto
    with bs h have "bombs g' = (if n < 6 then [b\<lparr>bomb_timer := 3 - real n * 0.5\<rparr>] else [])"
      by (simp add: aged_def)
    with t show ?thesis by blast
  qed
  show ?thesis
    using place eq tot upd many six by blast
qed


lemma wf_arena: "wf_game (arena\<lparr>bombs := bs\<rparr>)"
  by (simp add: wf_game_def arena_def wf_open_grid)

theorem bomb_lifecycle_witness:
  "perform_action arena 0 4 = Inr (0, arena\<lparr>bombs := [fresh_bomb]\<rparr>) \<and>
   (\<exists>g'. ticks 5 (arena\<lparr>bombs := [fresh_bomb]\<rparr>) = Inr g' \<and>
      bombs g' = [fresh_bomb\<lparr>bomb_timer := 0.5\<rparr>]) \<and>
   (\<exists>g'. ticks 6 (arena\<lparr>bombs := [fresh_bomb]\<rparr>) = Inr g' \<and> bombs g' = [])"
proof -
  have "wf_game arena" using wf_arena [of "bombs arena"] by simp
  from bomb_lifecycle [OF this]
  have "py_index (game_over arena) 0 = Inr False \<and> py_index (agent_positions arena) 0 = Inr (2, 2) \<longrightarrow>
      perform_action arena 0 4 = Inr (0, arena\<lparr>bombs := bombs arena @
        [\<lparr>bomb_row = 2, bomb_col = 2, bomb_timer = 3, bomb_owner = 0\<rparr>]\<rparr>)" by blast
  then have a: "perform_action arena 0 4 = Inr (0, arena\<lparr>bombs := [fresh_bomb]\<rparr>)"
    by (simp add: arena_def py_index_def subscript_def fresh_bomb_def)
  let ?g = "arena\<lparr>bombs := [fresh_bomb]\<rparr>"
  from bomb_lifecycle [OF wf_arena, of "[fresh_bomb]"]
  have "update_interval ?g = 0.5 \<and> bombs ?g = [fresh_bomb] \<and> bomb_timer fresh_bomb = 3 \<longrightarrow>
      (\<forall>n. \<exists>g'. ticks n ?g = Inr g' \<and>
         bombs g' = (if n < 6 then [fresh_bomb\<lparr>bomb_timer := 3 - real n * 0.5\<rparr>] else []))"
    by blast
  then have t: "\<exists>g'. ticks n ?g = Inr g' \<and>
         bombs g' = (if n < 6 then [fresh_bomb\<lparr>bomb_timer := 3 - real n * 0.5\<rparr>] else [])" for n
    by (simp add: arena_def fresh_bomb_def)
  from t [of 5] t [of 6] a show ?thesis by simp
qed

section \<open>The end of an episode\<close>

lemma save_all_files:
  "save_all xs env = env\<lparr>files := files env @ map (\<lambda>(i, ag). (qtable_filename i, Array (q_table ag))) xs\<rparr>"
proof (induction xs arbitrary: env)
  case Nil
  show ?case by simp
next
  case (Cons x xs)
  obtain i ag where x: "x = (i, ag)" by (cases x)
  show ?case by (simp add: x Cons save_q_table_def np_save_def)
qed

lemma make_row_length: "length (fst (make_row n env)) = n"
  by (induction n arbitrary: env) (simp_all add: Let_def case_prod_beta)

lemma env_self: "\<exists>k. env = env\<lparr>random_used := k\<rparr>"
  by (rule exI [of _ "random_used env"]) simp

lemma make_row_env: "\<exists>k. snd (make_row n env) = env\<lparr>random_used := k\<rparr>"
proof (induction n arbitrary: env)
  case 0
  show ?case using env_self [of env] by simp
next
  case (Suc n)
  have s: "\<exists>k. snd (make_row n (env\<lparr>random_used := j\<rparr>)) = env\<lparr>random_used := k\<rparr>" for j
    using Suc [of "env\<lparr>random_used := j\<rparr>"] by simp
  show ?case
    using s by (simp add: Let_def case_prod_beta random_random_def)
qed

lemma make_grid_shape:
  "length (fst (make_grid n env)) = n \<and>
   list_all (\<lambda>line. length line = nat COLS) (fst (make_grid n env))"
  by (induction n arbitrary: env) (simp_all add: Let_def case_prod_beta make_row_length)

lemma make_grid_env: "\<exists>k. snd (make_grid n env) = env\<lparr>random_used := k\<rparr>"
proof (induction n arbitrary: env)
  case 0
  show ?case using env_self [of env] by simp
next
  case (Suc n)
  from make_row_env [of "nat COLS" env] obtain j where
    j: "snd (make_row (nat COLS) env) = env\<lparr>random_used := j\<rparr>" by blast
  from Suc [of "env\<lparr>random_used := j\<rparr>"] obtain k where
    k: "snd (make_grid n (env\<lparr>random_used := j\<rparr>)) = env\<lparr>random_used := k\<rparr>" by auto
  show ?case
    using j k by (auto simp: Let_def case_prod_beta)
qed

lemma wf_make_grid: "wf_grid (fst (make_grid (nat ROWS) env))"
  using make_grid_shape [of "nat ROWS" env]
  by (simp add: wf_grid_def ROWS_val COLS_val list_all_iff)

lemma setup_game_eq:
  "setup_game g env =
     (g\<lparr>grid := fst (make_grid (nat ROWS) env),
        agent_positions := spawn (num_agents g),
        scores := replicate (nat (num_agents g)) 0,
        lives := replicate (nat (num_agents g)) 3,
        bombs := [],
        game_over := replicate (nat (num_agents g)) False\<rparr>,
      snd (make_grid (nat ROWS) env))"
  by (simp add: setup_game_def spawn_def case_prod_beta)


text \<open>
  C6. When every flag is set at the end of a tick, the last block of on\_update yields a
  state that differs from the old one as follows: the episode counter is one higher; the
  grid is the newly drawn, well-formed grid; positions, scores, lives, bombs and flags
  are those of \<open>setup\<close>; the agents, and so their tables, are the old ones. The file system
  has, after the old writes, exactly one write for each agent, in order, of that agent's
  table under that agent's file name, and of the environment otherwise only the count of
  random draws has changed. And a due tick of on\_update whose bomb and agent loops end in
  such a state returns exactly this result.
\<close>

theorem episode_reset:
  assumes over: "list_all (\<lambda>x. x) (game_over g)"
  shows "\<exists>g' env' cells k.
      end_of_tick (g, env) = (g', env') \<and>
      g' = g\<lparr>current_episode := current_episode g + 1, grid := cells,
             agent_positions := spawn (num_agents g),
             scores := replicate (nat (num_agents g)) 0,
             lives := replicate (nat (num_agents g)) 3,
             bombs := [],
             game_over := replicate (nat (num_agents g)) False\<rparr> \<and>
      cells = fst (make_grid (nat ROWS) (env\<lparr>files := files env @ saved (agents g)\<rparr>)) \<and>
      wf_grid cells \<and>
      current_episode g' = current_episode g + 1 \<and>
      agents g' = agents g \<and>
      map q_table (agents g') = map q_table (agents g) \<and>
      env' = env\<lparr>files := files env @ saved (agents g), random_used := k\<rparr> \<and>
      length (saved (agents g)) = length (agents g) \<and>
      (\<forall>i < length (agents g).
         saved (agents g) ! i = (qtable_filename (int i), Array (q_table (agents g ! i)))) \<and>
      (\<forall>delta_time g0 env0 g1.
          \<not> time_accumulator g0 + delta_time < update_interval g0 \<and>
          tick_bombs (g0\<lparr>time_accumulator := 0\<rparr>) = Inr g1 \<and>
          agents_loop (range_py (num_agents g1)) (g1, env0) = Inr (g, env) \<longrightarrow>
          on_update (g0, env0) delta_time = Inr (g', env'))"
proof -
  let ?env1 = "save_all (enumerate_py (agents g)) env"
  let ?cells = "fst (make_grid (nat ROWS) ?env1)"
  let ?g' = "g\<lparr>current_episode := current_episode g + 1, grid := ?cells,
             agent_positions := spawn (num_agents g),
             scores := replicate (nat (num_agents g)) 0,
             lives := replicate (nat (num_agents g)) 3,
             bombs := [],
             game_over := replicate (nat (num_agents g)) False\<rparr>"
  have s: "?env1 = env\<lparr>files := files env @ saved (agents g)\<rparr>"
    by (simp add: save_all_files saved_def)
  from make_grid_env [of "nat ROWS" ?env1] obtain k where
    k: "snd (make_grid (nat ROWS) (env\<lparr>files := files env @ saved (agents g)\<rparr>)) =
        env\<lparr>files := files env @ saved (agents g), random_used := k\<rparr>"
    unfolding s by auto
  let ?env' = "env\<lparr>files := files env @ saved (agents g), random_used := k\<rparr>"
  have e: "end_of_tick (g, env) = (?g', ?env')"
    using over by (simp add: end_of_tick_def setup_game_eq s k)
  have len: "length (saved (agents g)) = length (agents g)"
    by (simp add: saved_def enumerate_py_def)
  have each: "\<forall>i < length (agents g).
         saved (agents g) ! i = (qtable_filename (int i), Array (q_table (agents g ! i)))"
    by (simp add: saved_def enumerate_py_def)
  have upd: "\<forall>delta_time g0 env0 g1.
          \<not> time_accumulator g0 + delta_time < update_interval g0 \<and>
          tick_bombs (g0\<lparr>time_accumulator := 0\<rparr>) = Inr g1 \<and>
          agents_loop (range_py (num_agents g1)) (g1, env0) = Inr (g, env) \<longrightarrow>
          on_update (g0, env0) delta_time = Inr (?g', ?env')"
    using e by (simp add: on_update_def Let_def)
  show ?thesis
    using e wf_make_grid [of ?env1] len each upd s
    by (intro exI [of _ ?g'] exI [of _ ?env'] exI [of _ ?cells] exI [of _ k]) simp
qed


lemma qtable_filename_0: "qtable_filename 0 = ''agent_1_qtable.npy''"
  by (simp add: qtable_filename_def str_def str_nat.simps [of "Suc 0"])

lemma spawn_1: "spawn 1 = [(1, 1)]"
  by (simp add: spawn_def range_py_def)

theorem episode_reset_witness:
  "\<exists>g' env'. end_of_tick (fallen, quiet_env) = (g', env') \<and>
      current_episode g' = 1 \<and> agents g' = [fresh_agent] \<and> lives g' = [3] \<and>
      game_over g' = [False] \<and> agent_positions g' = [(1, 1)] \<and> bombs g' = [] \<and>
      files env' = [(''agent_1_qtable.npy'', Array [[0, 0], [0, 0]])]"
proof -
  have o: "list_all (\<lambda>x. x) (game_over fallen)" by (simp add: fallen_def)
  have s: "saved [fresh_agent] = [(''agent_1_qtable.npy'', Array [[0, 0], [0, 0]])]"
    by (simp add: saved_def enumerate_py_def qtable_filename_0 fresh_agent_def)
  from episode_reset [OF o, of quiet_env] obtain g' env' cells k where
    "end_of_tick (fallen, quiet_env) = (g', env')"
    "g' = fallen\<lparr>current_episode := current_episode fallen + 1, grid := cells,
             agent_positions := spawn (num_agents fallen),
             scores := replicate (nat (num_agents fallen)) 0,
             lives := replicate (nat (num_agents fallen)) 3,
             bombs := [],
             game_over := replicate (nat (num_agents fallen)) False\<rparr>"
    "env' = quiet_env\<lparr>files := files quiet_env @ saved (agents fallen), random_used := k\<rparr>"
    by blast
  then show ?thesis
    by (simp add: s spawn_1 fallen_def arena_def quiet_env_def)
qed

section \<open>Positions and the board\<close>

lemma spawn_nth: "k < nat n \<Longrightarrow> spawn n ! k = (1, 1 + int k * 3)"
  by (simp add: spawn_def range_py_def)

lemma spawn_length: "length (spawn n) = nat n"
  by (simp add: spawn_def range_py_def)

lemma spawn_in_bounds:
  assumes "n \<le> 7" "p \<in> set (spawn n)"
  shows "in_bounds p"
proof -
  from assms(2) obtain k where k: "k < nat n" "p = spawn n ! k"
    by (auto simp: in_set_conv_nth spawn_length)
  with assms(1) have "p = (1, 1 + int k * 3)" "int k \<le> 6"
    by (simp_all add: spawn_nth)
  then show ?thesis by (simp add: in_bounds_iff)
qed

lemma wf_setup_game: "wf_game (fst (setup_game g env))"
  by (simp add: setup_game_eq wf_game_def wf_make_grid spawn_length)

lemma grid_row_too_short:
  assumes "wf_grid cells" "0 \<le> r" "r < ROWS" "COLS \<le> c"
  shows "grid_get cells r c = Inl IndexError"
proof -
  from assms have r: "nat r < length cells" "r < int (length cells)"
    unfolding wf_grid_def by linarith+
  with assms(1) have "int (length (cells ! nat r)) = COLS"
    by (simp add: wf_grid_def list_all_length)
  with assms(4) have "subscript (length (cells ! nat r)) c = None"
    by (simp add: subscript_def COLS_val)
  then have b: "py_index (cells ! nat r) c = Inl IndexError"
    by (simp add: py_index_def)
  have a: "py_index cells r = Inr (cells ! nat r)"
    using assms(2) r(2) by (rule py_index_nonneg)
  show ?thesis
    by (simp add: grid_get_def a b)
qed


text \<open>
  C8 fails for eight agents: \<open>setup\<close> places agent 7 at column \<open>1 + 3 * 7 = 22\<close> of a board
  of 20 columns, the agent is not eliminated, and its first move to the left reads the
  grid outside its row and raises IndexError.
\<close>

theorem eighth_agent_off_board:
  "py_index (agent_positions crowded) 7 = Inr (1, 22) \<and> \<not> in_bounds (1, 22) \<and>
   py_index (game_over crowded) 7 = Inr False \<and>
   perform_action crowded 7 2 = Inl IndexError"
proof -
  have p: "py_index (agent_positions crowded) 7 = Inr (1, 22)"
    by (simp add: crowded_def setup_game_eq py_index_def subscript_def spawn_length spawn_nth)
  have o: "py_index (game_over crowded) 7 = Inr False"
    by (simp add: crowded_def setup_game_eq py_index_def subscript_def)
  have "wf_grid (grid crowded)"
    using wf_setup_game [of "arena\<lparr>num_agents := 8\<rparr>" quiet_env]
    by (simp add: crowded_def wf_game_def)
  then have e: "grid_get (grid crowded) 1 21 = Inl IndexError"
    by (rule grid_row_too_short) (simp_all add: ROWS_val COLS_val)
  have "perform_action crowded 7 2 = Inl IndexError"
    by (simp add: perform_action_def p o move_guard_def e)
  with p o show ?thesis by (simp add: in_bounds_iff)
qed


text \<open>
  C1 fails in the same state. Agent 7 is not eliminated and the grid is well formed; the
  action 2 (Left) aims at (1, 21), which is outside the bounds, so the movement is to be
  refused with reward -1 and the state unchanged. perform\_action checks only \<open>col > 0\<close>
  for this direction, reads \<open>grid[1][21]\<close> and raises IndexError.
\<close>

theorem off_board_move_raises:
  "wf_grid (grid crowded) \<and>
   py_index (game_over crowded) 7 = Inr False \<and>
   py_index (agent_positions crowded) 7 = Inr (1, 22) \<and>
   target 2 (1, 22) = (1, 21) \<and> \<not> in_bounds (1, 21) \<and>
   perform_action crowded 7 2 = Inl IndexError \<and>
   perform_action crowded 7 2 \<noteq> Inr (- 1, crowded)"
proof -
  have p: "py_index (agent_positions crowded) 7 = Inr (1, 22)"
    by (simp add: crowded_def setup_game_eq py_index_def subscript_def spawn_length spawn_nth)
  have o: "py_index (game_over crowded) 7 = Inr False"
    by (simp add: crowded_def setup_game_eq py_index_def subscript_def)
  have wf: "wf_grid (grid crowded)"
    using wf_setup_game [of "arena\<lparr>num_agents := 8\<rparr>" quiet_env]
    by (simp add: crowded_def wf_game_def)
  then have "grid_get (grid crowded) 1 21 = Inl IndexError"
    by (rule grid_row_too_short) (simp_all add: ROWS_val COLS_val)
  then have r: "perform_action crowded 7 2 = Inl IndexError"
    by (simp add: perform_action_def p o move_guard_def)
  have t: "target 2 (1, 22) = (1, 21)" by (simp add: target_def)
  from wf p o r t show ?thesis by (simp add: in_bounds_iff)
qed

text \<open>
  For at most seven agents every position stays on the board: \<open>setup\<close> spawns on the
  board, a move goes to a cell inside the bounds that perform\_action checks, and an
  explosion moves nobody.
\<close>

lemma perform_action_other:
  assumes "py_index (game_over g) i = Inr False" "py_index (agent_positions g) i = Inr p"
    "a \<noteq> 0" "a \<noteq> 1" "a \<noteq> 2" "a \<noteq> 3" "a \<noteq> 4"
  shows "perform_action g i a = Inr (- 1, g)"
  using assms by (cases p) (simp add: perform_action_def)

lemma target_in_bounds_iff:
  "in_bounds (target a p) \<longleftrightarrow> 0 \<le> fst (target a p) \<and> fst (target a p) < 15 \<and>
     0 \<le> snd (target a p) \<and> snd (target a p) < 20"
  by (simp add: in_bounds_def ROWS_val COLS_val)

lemma perform_action_in_bounds:
  assumes wf: "wf_grid (grid g)" and all: "\<forall>p \<in> set (agent_positions g). in_bounds p"
    and run: "perform_action g i a = Inr (r, g')"
  shows "\<forall>p \<in> set (agent_positions g'). in_bounds p"
proof (cases "py_index (game_over g) i")
  case (Inl e)
  with run show ?thesis by (simp add: perform_action_def)
next
  case (Inr dead)
  show ?thesis
  proof (cases dead)
    case True
    with Inr run all show ?thesis by (simp add: perform_action_def)
  next
    case False
    with Inr have alive: "py_index (game_over g) i = Inr False" by simp
    show ?thesis
    proof (cases "py_index (agent_positions g) i")
      case (Inl e)
      with run alive show ?thesis by (simp add: perform_action_def)
    next
      case (Inr p)
      from py_index_slot [OF Inr] all have ib: "in_bounds p" by auto
      consider (move) "a = 0 \<or> a = 1 \<or> a = 2 \<or> a = 3" | (bomb) "a = 4"
        | (other) "a \<noteq> 0" "a \<noteq> 1" "a \<noteq> 2" "a \<noteq> 3" "a \<noteq> 4" by blast
      then show ?thesis
      proof cases
        case move
        from perform_action_move [OF wf alive Inr ib move] run obtain k where
          "g' = g \<or> (in_bounds (target a p) \<and>
              g' = g\<lparr>agent_positions := (agent_positions g)[k := target a p]\<rparr>)"
          by (auto split: if_splits)
        then show ?thesis
        proof
          assume "g' = g"
          with all show ?thesis by simp
        next
          assume h: "in_bounds (target a p) \<and>
              g' = g\<lparr>agent_positions := (agent_positions g)[k := target a p]\<rparr>"
          then have "set (agent_positions g') \<subseteq> insert (target a p) (set (agent_positions g))"
            by (simp add: set_update_subset_insert)
          with h all show ?thesis by auto
        qed
      next
        case bomb
        obtain row col where "p = (row, col)" by (cases p)
        with place_bomb [OF alive] Inr bomb run all show ?thesis by auto
      next
        case other
        from perform_action_other [OF alive Inr other] run all show ?thesis by simp
      qed
    qed
  qed
qed

lemma perform_action_wf:
  assumes "wf_game g" "perform_action g i a = Inr (r, g')"
  shows "wf_game g'"
  using assms(1) perform_action_flags [OF assms(2)] by (simp add: wf_game_def)

lemma reachable_in_bounds:
  assumes "reachable g"
  shows "wf_game g \<and> (\<forall>p \<in> set (agent_positions g). in_bounds p)"
  using assms
proof (induction rule: reachable.induct)
  case (start g env)
  have "\<forall>p \<in> set (agent_positions (fst (setup_game g env))). in_bounds p"
    using spawn_in_bounds [OF start] by (simp add: setup_game_eq)
  with wf_setup_game [of g env] show ?case by simp
next
  case (act g i a r g')
  from act.IH have "wf_grid (grid g)" by (simp add: wf_game_def)
  from perform_action_in_bounds [OF this _ act.hyps(2)] act.IH
    perform_action_wf [OF _ act.hyps(2)]
  show ?case by simp
next
  case (boom g b g')
  from boom.IH explode_bomb_wf [of g b] boom.hyps(2) have "wf_game g'" by auto
  with boom.IH explode_bomb_keeps(3) [OF boom.hyps(2)] show ?case by simp
qed



section \<open>Spawning on a block\<close>

lemma block_grid:
  "v = 0 \<or> v = 1 \<Longrightarrow> fst (make_grid (nat ROWS) (block_env v)) =
     set_cell open_grid (1, 1) (if v < 0.7 then DESTRUCTIBLE else INDESTRUCTIBLE)"
  by (auto simp: ROWS_val COLS_val eval_nat_numeral random_random_def Let_def block_env_def
      quiet_env_def set_cell_def open_grid_def)

lemma target_moves: "a = 0 \<or> a = 1 \<or> a = 2 \<or> a = 3 \<Longrightarrow> target a p \<noteq> p"
  by (cases p) (auto simp: target_def)

lemma occupied_cell_ignored:
  assumes wf: "wf_grid (grid g)"
    and alive: "py_index (game_over g) i = Inr False"
    and pos: "py_index (agent_positions g) i = Inr p"
    and ib: "in_bounds p"
    and act: "a = 0 \<or> a = 1 \<or> a = 2 \<or> a = 3"
  shows "perform_action (g\<lparr>grid := set_cell (grid g) p v\<rparr>) i a =
     (case perform_action g i a of
        Inl e \<Rightarrow> Inl e
      | Inr (r, g') \<Rightarrow> Inr (r, g'\<lparr>grid := set_cell (grid g) p v\<rparr>))"
proof -
  let ?h = "g\<lparr>grid := set_cell (grid g) p v\<rparr>"
  have wf': "wf_grid (grid ?h)" using wf by (simp add: wf_set_cell)
  have same: "in_bounds (target a p) \<Longrightarrow>
      cell (grid ?h) (target a p) = cell (grid g) (target a p)"
    using cell_set_cell [OF wf ib, of "target a p" v] target_moves [OF act, of p] by simp
  from perform_action_move [OF wf alive pos ib act] obtain k where
    k: "subscript (length (agent_positions g)) i = Some k"
    and old: "perform_action g i a =
             (if in_bounds (target a p) \<and> cell (grid g) (target a p) = EMPTY
              then Inr (5, g\<lparr>agent_positions := (agent_positions g)[k := target a p]\<rparr>)
              else Inr (- 1, g))" by blast
  from perform_action_move [of ?h i p a] wf' alive pos ib act obtain k' where
    k': "subscript (length (agent_positions g)) i = Some k'"
    and new: "perform_action ?h i a =
             (if in_bounds (target a p) \<and> cell (grid ?h) (target a p) = EMPTY
              then Inr (5, ?h\<lparr>agent_positions := (agent_positions ?h)[k' := target a p]\<rparr>)
              else Inr (- 1, ?h))" by auto
  from k k' have "k' = k" by simp
  with old new same show ?thesis by auto
qed


text \<open>
  C10. (1) The positions \<open>setup\<close> assigns are \<open>(1, 1 + 3 i)\<close> whatever the grid is, and the
  grid is what the draws make it, whatever the positions are: no cell is inspected or
  cleared for an agent; the state is well formed. (2) For a live agent on the board, the
  outcome of a movement action does not depend on the cell the agent stands on: with any
  value written into that cell, the reward and the move are the same. (3) For a game with
  at least one agent and for either kind of block there are draws for which \<open>setup\<close> leaves
  agent 0 on a block of that kind at (1, 1); from that state the agent moves right with
  reward 5, places a bomb with reward 0, and the countdown of the bombs succeeds.
\<close>

theorem spawn_ignores_grid:
  shows "(\<forall>g env. agent_positions (fst (setup_game g env)) = spawn (num_agents g) \<and>
                 grid (fst (setup_game g env)) = fst (make_grid (nat ROWS) env) \<and>
                 wf_game (fst (setup_game g env))) \<and>
         (\<forall>g i p a v. wf_grid (grid g) \<and> py_index (game_over g) i = Inr False \<and>
              py_index (agent_positions g) i = Inr p \<and> in_bounds p \<and>
              (a = 0 \<or> a = 1 \<or> a = 2 \<or> a = 3) \<longrightarrow>
            perform_action (g\<lparr>grid := set_cell (grid g) p v\<rparr>) i a =
              (case perform_action g i a of
                 Inl e \<Rightarrow> Inl e
               | Inr (r, g') \<Rightarrow> Inr (r, g'\<lparr>grid := set_cell (grid g) p v\<rparr>))) \<and>
         (\<forall>g block. 1 \<le> num_agents g \<and> (block = DESTRUCTIBLE \<or> block = INDESTRUCTIBLE) \<longrightarrow>
            (\<exists>env g'. fst (setup_game g env) = g' \<and>
               py_index (agent_positions g') 0 = Inr (1, 1) \<and>
               py_index (game_over g') 0 = Inr False \<and>
               grid g' = set_cell open_grid (1, 1) block \<and>
               cell (grid g') (1, 1) = block \<and>
               perform_action g' 0 3 =
                 Inr (5, g'\<lparr>agent_positions := (agent_positions g')[0 := (1, 2)]\<rparr>) \<and>
               perform_action g' 0 4 =
                 Inr (0, g'\<lparr>bombs := [\<lparr>bomb_row = 1, bomb_col = 1, bomb_timer = 3, bomb_owner = 0\<rparr>]\<rparr>) \<and>
               (\<exists>g''. tick_bombs g' = Inr g'')))"
proof -
  have one: "\<forall>g env. agent_positions (fst (setup_game g env)) = spawn (num_agents g) \<and>
                 grid (fst (setup_game g env)) = fst (make_grid (nat ROWS) env) \<and>
                 wf_game (fst (setup_game g env))"
    using wf_setup_game by (simp add: setup_game_eq)
  have two: "\<forall>g i p a v. wf_grid (grid g) \<and> py_index (game_over g) i = Inr False \<and>
              py_index (agent_positions g) i = Inr p \<and> in_bounds p \<and>
              (a = 0 \<or> a = 1 \<or> a = 2 \<or> a = 3) \<longrightarrow>
            perform_action (g\<lparr>grid := set_cell (grid g) p v\<rparr>) i a =
              (case perform_action g i a of
                 Inl e \<Rightarrow> Inl e
               | Inr (r, g') \<Rightarrow> Inr (r, g'\<lparr>grid := set_cell (grid g) p v\<rparr>))"
    using occupied_cell_ignored by blast
  have three: "\<exists>env g'. fst (setup_game g env) = g' \<and>
               py_index (agent_positions g') 0 = Inr (1, 1) \<and>
               py_index (game_over g') 0 = Inr False \<and>
               grid g' = set_cell open_grid (1, 1) block \<and>
               cell (grid g') (1, 1) = block \<and>
               perform_action g' 0 3 =
                 Inr (5, g'\<lparr>agent_positions := (agent_positions g')[0 := (1, 2)]\<rparr>) \<and>
               perform_action g' 0 4 =
                 Inr (0, g'\<lparr>bombs := [\<lparr>bomb_row = 1, bomb_col = 1, bomb_timer = 3, bomb_owner = 0\<rparr>]\<rparr>) \<and>
               (\<exists>g''. tick_bombs g' = Inr g'')"
    if n: "1 \<le> num_agents g" and bl: "block = DESTRUCTIBLE \<or> block = INDESTRUCTIBLE" for g block
  proof -
    define v :: real where "v = (if block = DESTRUCTIBLE then 0 else 1)"
    have v: "v = 0 \<or> v = 1" by (simp add: v_def)
    have vb: "(if v < 0.7 then DESTRUCTIBLE else INDESTRUCTIBLE) = block"
      using bl cells_distinct by (auto simp: v_def)
    define g' where "g' = fst (setup_game g (block_env v))"
    have gr: "grid g' = set_cell open_grid (1, 1) block"
      using block_grid [OF v] vb by (simp add: g'_def setup_game_eq)
    have ib: "in_bounds (1, 1)" "in_bounds (1, 2)" by (simp_all add: in_bounds_iff)
    have c11: "cell (grid g') (1, 1) = block"
      using cell_set_cell [OF wf_open_grid ib(1) ib(1)] by (simp add: gr)
    have c12: "cell (grid g') (1, 2) = EMPTY"
      using cell_set_cell [OF wf_open_grid ib(1) ib(2)] cell_open_grid [OF ib(2)] by (simp add: gr)
    have wfg: "wf_game g'" by (simp add: g'_def wf_setup_game)
    then have wf: "wf_grid (grid g')" by (simp add: wf_game_def)
    have nn: "0 < nat (num_agents g)" using n by simp
    have pos: "py_index (agent_positions g') 0 = Inr (1, 1)"
      using nn spawn_nth [of 0 "num_agents g"]
      by (simp add: g'_def setup_game_eq py_index_def subscript_def spawn_length)
    have alive: "py_index (game_over g') 0 = Inr False"
      using nn by (simp add: g'_def setup_game_eq py_index_def subscript_def)
    have sub: "subscript (length (agent_positions g')) 0 = Some 0"
      using nn by (simp add: g'_def setup_game_eq subscript_def spawn_length)
    from perform_action_move [OF wf alive pos ib(1), of 3] sub
    have mv: "perform_action g' 0 3 =
        Inr (5, g'\<lparr>agent_positions := (agent_positions g')[0 := (1, 2)]\<rparr>)"
      using ib(2) c12 by (simp add: target_def)
    have "bombs g' = []" by (simp add: g'_def setup_game_bombs)
    with place_bomb [OF alive pos]
    have pb: "perform_action g' 0 4 =
        Inr (0, g'\<lparr>bombs := [\<lparr>bomb_row = 1, bomb_col = 1, bomb_timer = 3, bomb_owner = 0\<rparr>]\<rparr>)"
      by simp
    from tick_bombs_wf [OF wfg] have tk: "\<exists>g''. tick_bombs g' = Inr g''" by blast
    show ?thesis
      using pos alive gr c11 mv pb tk unfolding g'_def by blast
  qed
  show ?thesis
    using one two three by blast
qed

theorem spawn_ignores_grid_witness:
  "\<exists>env g'. fst (setup_game arena env) = g' \<and>
      py_index (agent_positions g') 0 = Inr (1, 1) \<and>
      cell (grid g') (1, 1) = INDESTRUCTIBLE \<and>
      perform_action g' 0 3 = Inr (5, g'\<lparr>agent_positions := (agent_positions g')[0 := (1, 2)]\<rparr>)"
proof -
  have "1 \<le> num_agents arena \<and> (INDESTRUCTIBLE = DESTRUCTIBLE \<or> INDESTRUCTIBLE = INDESTRUCTIBLE)"
    by (simp add: arena_def)
  with spawn_ignores_grid show ?thesis by blast
qed

end
